theory Spec2Isabelle
  imports Main "HOL-Library.AList"
begin

section \<open>JavaScript values\<close>

text \<open>
  The values \<^verbatim>\<open>lib/spec.js\<close> handles: a module's exports (the descriptor \<^verbatim>\<open>mod\<close>), the
  values of its annotations, the created instances and the rejection reasons. An object
  or a function is given by its own string-keyed properties, in insertion order, each
  with its enumerable flag and its value (the first binding of a key in the list is the
  property), and by the properties it inherits along its prototype chain. Numbers are the
  integers and NaN, which is all that truthiness distinguishes.
\<close>

datatype jsval =
    JUndefined
  | JNull
  | JBool bool
  | JNum int
  | JNaN
  | JStr string
  | JArr "jsval list"
  | JObj "(string \<times> bool \<times> jsval) list" "(string \<times> jsval) list"
  | JFun "(string \<times> bool \<times> jsval) list" "(string \<times> jsval) list"

datatype jstype = TUndefined | TObject | TBoolean | TNumber | TString | TFunction

datatype error = TypeError

fun typeof :: "jsval \<Rightarrow> jstype" where
  "typeof JUndefined = TUndefined"
| "typeof JNull = TObject"
| "typeof (JBool b) = TBoolean"
| "typeof (JNum n) = TNumber"
| "typeof JNaN = TNumber"
| "typeof (JStr s) = TString"
| "typeof (JArr xs) = TObject"
| "typeof (JObj ps inh) = TObject"
| "typeof (JFun ps inh) = TFunction"

text \<open>ToBoolean, as applied by \<^verbatim>\<open>if (x)\<close> and \<^verbatim>\<open>x || y\<close>.\<close>

fun truthy :: "jsval \<Rightarrow> bool" where
  "truthy JUndefined = False"
| "truthy JNull = False"
| "truthy (JBool b) = b"
| "truthy (JNum n) = (n \<noteq> 0)"
| "truthy JNaN = False"
| "truthy (JStr s) = (s \<noteq> [])"
| "truthy (JArr xs) = True"
| "truthy (JObj ps inh) = True"
| "truthy (JFun ps inh) = True"

text \<open>\<^verbatim>\<open>x || y\<close>\<close>

definition or_else :: "jsval \<Rightarrow> jsval \<Rightarrow> jsval" where
  "or_else x y = (if truthy x then x else y)"

text \<open>The decimal name of an array index, the key under which an array holds an element.\<close>

fun index_key :: "nat \<Rightarrow> string" where
  "index_key n =
     (if n < 10 then [''0123456789'' ! n]
      else index_key (n div 10) @ [''0123456789'' ! (n mod 10)])"

declare index_key.simps [simp del]

text \<open>
  The own properties of a value, each with its enumerable flag, and the properties it
  inherits. The elements of an array are enumerable. A primitive has no property that the
  constructor could see: it reads a primitive only under the three \<^verbatim>\<open>@\<close> keys, and no
  built-in prototype has a property whose name begins with \<^verbatim>\<open>@\<close>.
\<close>

fun own_props :: "jsval \<Rightarrow> (string \<times> bool \<times> jsval) list" where
  "own_props (JObj ps inh) = ps"
| "own_props (JFun ps inh) = ps"
| "own_props (JArr xs) = zip (map index_key [0..<length xs]) (map (Pair True) xs)"
| "own_props v = []"

fun inherited :: "jsval \<Rightarrow> (string \<times> jsval) list" where
  "inherited (JObj ps inh) = inh"
| "inherited (JFun ps inh) = inh"
| "inherited v = []"

text \<open>
  What \<^verbatim>\<open>mod[key]\<close> finds on a value that has properties: the own property, enumerable
  or not, and failing that the inherited one.
\<close>

definition lookup :: "jsval \<Rightarrow> string \<Rightarrow> jsval option" where
  "lookup v k =
     (case map_of (own_props v) k of
        Some (e, x) \<Rightarrow> Some x
      | None \<Rightarrow> map_of (inherited v) k)"

text \<open>The value of the own enumerable property k, where there is one.\<close>

definition own_enumerable :: "jsval \<Rightarrow> string \<Rightarrow> jsval option" where
  "own_enumerable v k =
     (case map_of (own_props v) k of
        Some (e, x) \<Rightarrow> (if e then Some x else None)
      | None \<Rightarrow> None)"

text \<open>\<^verbatim>\<open>mod[key]\<close>: a TypeError on null and undefined, undefined where nothing is found.\<close>

definition get_prop :: "jsval \<Rightarrow> string \<Rightarrow> error + jsval" where
  "get_prop v k =
     (if v = JUndefined \<or> v = JNull then Inl TypeError
      else Inr (case lookup v k of Some x \<Rightarrow> x | None \<Rightarrow> JUndefined))"

text \<open>
  \<^verbatim>\<open>Object.keys(mod)\<close>: the names of the own enumerable properties. Own properties
  that are not enumerable and inherited properties are not listed.
\<close>

definition object_keys :: "jsval \<Rightarrow> error + string list" where
  "object_keys v =
     (if v = JUndefined \<or> v = JNull then Inl TypeError
      else Inr (filter (\<lambda>k. own_enumerable v k \<noteq> None) (remdups (map fst (own_props v)))))"

text \<open>\<^verbatim>\<open>s.indexOf(c)\<close> for a one-character needle: the first position of c, or -1.\<close>

fun indexOf :: "string \<Rightarrow> char \<Rightarrow> int" where
  "indexOf [] c = - 1"
| "indexOf (x # xs) c =
     (if x = c then 0
      else (let j = indexOf xs c in if j < 0 then - 1 else j + 1))"

section \<open>The constructor \<^verbatim>\<open>Spec(id, mod, source)\<close>\<close>

record spec =
  spec_id :: jsval
  dependencies :: jsval
  singleton :: jsval
  implements :: jsval
  annotations :: "(string \<times> jsval) list"
  source :: jsval

text \<open>
  The loop of lines 54 to 58 over \<^verbatim>\<open>keys\<close>, with \<^verbatim>\<open>this.a\<close> as the accumulator.
  Assigning \<^verbatim>\<open>this.a[k]\<close> replaces the value of a key that is there and appends a new key.
\<close>

fun copy_annotations ::
  "jsval \<Rightarrow> string list \<Rightarrow> (string \<times> jsval) list \<Rightarrow> error + (string \<times> jsval) list" where
  "copy_annotations m [] a = Inr a"
| "copy_annotations m (k # ks) a =
     (if indexOf k CHR ''@'' = 0 then
        (case get_prop m k of
           Inl e \<Rightarrow> Inl e
         | Inr v \<Rightarrow> copy_annotations m ks (AList.update k v a))
      else copy_annotations m ks a)"

definition Spec :: "jsval \<Rightarrow> jsval \<Rightarrow> jsval \<Rightarrow> error + spec" where
  "Spec i m src =
     (case get_prop m ''@require'' of
        Inl e \<Rightarrow> Inl e
      | Inr req \<Rightarrow>
     (case get_prop m ''@singleton'' of
        Inl e \<Rightarrow> Inl e
      | Inr sing \<Rightarrow>
     (case get_prop m ''@implements'' of
        Inl e \<Rightarrow> Inl e
      | Inr impl \<Rightarrow>
     (let impl1 = or_else impl (JArr []);
          impl2 = (if typeof impl1 = TString then JArr [impl1] else impl1);
          this = \<lparr> spec_id = i, dependencies = or_else req (JArr []), singleton = sing,
                   implements = impl2, annotations = [], source = src \<rparr>
      in if typeof m = TObject \<or> typeof m = TFunction then
           (case object_keys m of
              Inl e \<Rightarrow> Inl e
            | Inr keys \<Rightarrow>
                (case copy_annotations m keys [] of
                   Inl e \<Rightarrow> Inl e
                 | Inr a \<Rightarrow> Inr (this\<lparr> annotations := a \<rparr>)))
         else Inr this))))"

section \<open>Resolution: \<^verbatim>\<open>Spec.prototype.create\<close>\<close>

text \<open>
  \<^verbatim>\<open>create\<close> runs on one event loop: a call returns at once, and what it started
  goes on in jobs that run later, one at a time. The model is a state and three kinds of
  events: a call of \<^verbatim>\<open>create\<close>, the environment settling a promise that the container
  handed out, and the job that runs the continuation of one call.

  The fields of \<^verbatim>\<open>this\<close> that \<^verbatim>\<open>create\<close> reads are \<^verbatim>\<open>dependencies\<close>, taken to be an
  array and given by its elements, \<^verbatim>\<open>singleton\<close> and \<^verbatim>\<open>_instance\<close>.
\<close>

text \<open>
  What has become of a promise that is no longer pending: fulfilled with a value,
  rejected with a reason, or resolved with a thenable (another promise, or any object
  with a method \<^verbatim>\<open>then\<close>), whose fate it follows from then on. What the thenable does is
  outside \<^verbatim>\<open>lib/spec.js\<close>, and the model follows it no further: a promise that follows a
  thenable is neither fulfilled nor rejected here, and stays so.
\<close>

datatype outcome = Fulfilled jsval | Rejected jsval | Follows jsval

text \<open>
  What \<^verbatim>\<open>container.create(id, this)\<close> returned: a promise of the container's, named
  by a number, or a value that is no promise and no other thenable.
\<close>

datatype dep_result = Promised nat | Immediate jsval

text \<open>
  What \<^verbatim>\<open>_instance\<close> holds and what \<^verbatim>\<open>create\<close> returns: the promise \<^verbatim>\<open>p\<close> of one
  of its calls, named by the number of that call, or a value that the factory returned
  (undefined before the first assignment). Such a value is whatever the factory made: it
  may itself be a promise of the factory's own.
\<close>

datatype slot = Future nat | Plain jsval

text \<open>The state of \<^verbatim>\<open>Promise.all(promises)\<close>.\<close>

datatype join = JPending | JFulfilled "jsval list" | JRejected jsval

text \<open>
  One call of \<^verbatim>\<open>create\<close> that went past the cache: the array \<^verbatim>\<open>promises\<close>, the state
  of \<^verbatim>\<open>Promise.all(promises)\<close>, and the state of the promise \<^verbatim>\<open>p\<close> it returned
  (\<open>None\<close> while pending).
\<close>

record task =
  waits :: "dep_result list"
  joined :: join
  outcome :: "outcome option"

text \<open>
  The state: the three fields of \<^verbatim>\<open>this\<close>, the container's promises that have settled,
  the calls in flight or done, and three logs: the ids asked of \<^verbatim>\<open>container.create\<close>, the
  calls of \<^verbatim>\<open>instantiate\<close> (which call of \<^verbatim>\<open>create\<close> made it, and its arguments), and
  the instances passed to \<^verbatim>\<open>container.emit\<close>.
\<close>

record world =
  this_dependencies :: "jsval list"
  this_singleton :: jsval
  this_instance :: slot
  settled :: "nat \<rightharpoonup> outcome"
  tasks :: "task list"
  requested :: "jsval list"
  invoked :: "(nat \<times> jsval list) list"
  emitted :: "jsval list"

text \<open>\<^verbatim>\<open>if (this._instance)\<close>: a promise is an object, hence truthy.\<close>

fun truthy_slot :: "slot \<Rightarrow> bool" where
  "truthy_slot (Future p) = True"
| "truthy_slot (Plain v) = truthy v"

subsection \<open>Promises\<close>

text \<open>
  Modelled from the spec: \<^verbatim>\<open>Promise.all\<close> and \<^verbatim>\<open>then\<close> of the package
  \<^verbatim>\<open>promise\<close>, which \<^verbatim>\<open>lib/spec.js\<close> requires and which is not part of the sources.
  The join fulfils once every element is fulfilled, with the values in the order of the
  array (a value that is no promise counts as fulfilled with itself); it rejects as soon
  as one element rejects, with that reason. \<^verbatim>\<open>then\<close> with no rejection handler passes a
  rejection on, and runs its callback in a later job.
\<close>

text \<open>
  What the promise of \<^verbatim>\<open>then\<close> does with the value that the callback returns, by the
  resolution procedure of promises: an object or a function with a callable property
  \<^verbatim>\<open>then\<close> is followed; with anything else the promise is fulfilled.
\<close>

definition thenable :: "jsval \<Rightarrow> bool" where
  "thenable v \<longleftrightarrow>
     v \<noteq> JNull \<and> (typeof v = TObject \<or> typeof v = TFunction) \<and>
     (case lookup v ''then'' of Some t \<Rightarrow> typeof t = TFunction | None \<Rightarrow> False)"

definition resolved :: "jsval \<Rightarrow> outcome" where
  "resolved v = (if thenable v then Follows v else Fulfilled v)"

fun rejection_of :: "(nat \<rightharpoonup> outcome) \<Rightarrow> dep_result \<Rightarrow> jsval option" where
  "rejection_of s (Promised r) = (case s r of Some (Rejected e) \<Rightarrow> Some e | _ \<Rightarrow> None)"
| "rejection_of s (Immediate v) = None"

fun value_of :: "(nat \<rightharpoonup> outcome) \<Rightarrow> dep_result \<Rightarrow> jsval option" where
  "value_of s (Promised r) = (case s r of Some (Fulfilled v) \<Rightarrow> Some v | _ \<Rightarrow> None)"
| "value_of s (Immediate v) = Some v"

fun first_rejection :: "(nat \<rightharpoonup> outcome) \<Rightarrow> dep_result list \<Rightarrow> jsval option" where
  "first_rejection s [] = None"
| "first_rejection s (d # ds) =
     (case rejection_of s d of Some e \<Rightarrow> Some e | None \<Rightarrow> first_rejection s ds)"

fun all_values :: "(nat \<rightharpoonup> outcome) \<Rightarrow> dep_result list \<Rightarrow> jsval list option" where
  "all_values s [] = Some []"
| "all_values s (d # ds) =
     (case value_of s d of
        None \<Rightarrow> None
      | Some v \<Rightarrow> (case all_values s ds of None \<Rightarrow> None | Some vs \<Rightarrow> Some (v # vs)))"

text \<open>
  Modelled from the spec: the state of \<^verbatim>\<open>Promise.all(promises)\<close> right after the call,
  when some elements may have settled already.
\<close>

definition promise_all :: "(nat \<rightharpoonup> outcome) \<Rightarrow> dep_result list \<Rightarrow> join" where
  "promise_all s ds =
     (case first_rejection s ds of
        Some e \<Rightarrow> JRejected e
      | None \<Rightarrow> (case all_values s ds of Some vs \<Rightarrow> JFulfilled vs | None \<Rightarrow> JPending))"

text \<open>
  Modelled from the spec: what a pending join does when the promise r, one of its
  elements, settles with x; s is the store with r settled.
\<close>

definition react :: "nat \<Rightarrow> outcome \<Rightarrow> (nat \<rightharpoonup> outcome) \<Rightarrow> task \<Rightarrow> task" where
  "react r x s tk =
     (if joined tk = JPending \<and> Promised r \<in> set (waits tk) then
        (case x of
           Rejected e \<Rightarrow> tk\<lparr> joined := JRejected e \<rparr>
         | Fulfilled v \<Rightarrow>
             (case all_values s (waits tk) of
                Some vs \<Rightarrow> tk\<lparr> joined := JFulfilled vs \<rparr>
              | None \<Rightarrow> tk)
         | Follows t \<Rightarrow> tk)
      else tk)"

text \<open>
  The environment settles the container's promise r: x is what becomes of it. This
  happens to a promise once: a second time changes nothing. A promise of the container's
  that follows a thenable gives its join neither a value nor a reason.
\<close>

definition settle :: "nat \<Rightarrow> outcome \<Rightarrow> world \<Rightarrow> world" where
  "settle r x w =
     (if settled w r \<noteq> None then w
      else (let s = (settled w)(r \<mapsto> x)
            in w\<lparr> settled := s, tasks := map (react r x s) (tasks w) \<rparr>))"

subsection \<open>\<^verbatim>\<open>create\<close>, lines 68 to 104\<close>

text \<open>
  The container is outside the sources. It is a parameter: \<open>container k d\<close> is what the
  call number k of \<^verbatim>\<open>container.create\<close> returns, asked for the id d. Every behaviour of
  a container along one run is such a function. Per the interface, \<^verbatim>\<open>container.create\<close>
  and \<^verbatim>\<open>container.emit\<close> return without throwing and without calling back into this
  specification.
\<close>

text \<open>
  The call of \<^verbatim>\<open>debug\<close> at line 69 only writes to the log and is left out.
\<close>

text \<open>The loop of lines 80 to 83: one request per dependency, in the order of the array.\<close>

fun fan_out :: "(nat \<Rightarrow> jsval \<Rightarrow> dep_result) \<Rightarrow> nat \<Rightarrow> jsval list \<Rightarrow> dep_result list" where
  "fan_out container k [] = []"
| "fan_out container k (d # ds) = container k d # fan_out container (Suc k) ds"

definition create :: "(nat \<Rightarrow> jsval \<Rightarrow> dep_result) \<Rightarrow> world \<Rightarrow> slot \<times> world" where
  "create container w =
     (if truthy_slot (this_instance w) then (this_instance w, w)
      else
        (let deps = this_dependencies w;
             promises = fan_out container (length (requested w)) deps;
             p = length (tasks w);
             w1 = w\<lparr> requested := requested w @ deps,
                     tasks := tasks w @
                       [\<lparr> waits = promises, joined = promise_all (settled w) promises,
                          outcome = None \<rparr>] \<rparr>;
             w2 = (if truthy (this_singleton w1) then w1\<lparr> this_instance := Future p \<rparr> else w1)
         in (Future p, w2)))"

text \<open>
  \<^verbatim>\<open>Spec.prototype.instantiate\<close>, lines 111 to 113: the base class throws. A subclass
  overrides it; below the factory is a parameter, \<open>factory k args\<close> being what the call
  number k of \<^verbatim>\<open>instantiate\<close> does with the arguments: \<open>Inl\<close> what it throws, \<open>Inr\<close> the
  instance it returns.
\<close>

definition instantiate :: "nat \<Rightarrow> jsval list \<Rightarrow> jsval + jsval" where
  "instantiate k args = Inl (JStr ''Spec#instantiate must be overridden by subclass'')"

text \<open>The promise \<^verbatim>\<open>p\<close> of call number p is rejected or resolved: x is what becomes of it.\<close>

definition conclude :: "nat \<Rightarrow> outcome \<Rightarrow> world \<Rightarrow> world" where
  "conclude p x w = w\<lparr> tasks := (tasks w)[p := (tasks w ! p)\<lparr> outcome := Some x \<rparr>] \<rparr>"

text \<open>
  The callback of lines 88 to 96, run for call number p with the joined values: what
  becomes of \<^verbatim>\<open>p\<close>, and the state it leaves. A throw of \<^verbatim>\<open>instantiate\<close> leaves the
  callback at line 89 and rejects \<^verbatim>\<open>p\<close>. Otherwise line 90 passes the instance i to
  \<^verbatim>\<open>container.emit\<close>, line 94 stores i itself in \<^verbatim>\<open>_instance\<close> for a singleton, and
  line 95 returns i, which resolves \<^verbatim>\<open>p\<close>: fulfilled with i, unless i is a thenable, which
  \<^verbatim>\<open>p\<close> follows.
\<close>

definition on_joined ::
  "(nat \<Rightarrow> jsval list \<Rightarrow> jsval + jsval) \<Rightarrow> nat \<Rightarrow> jsval list \<Rightarrow> world \<Rightarrow> outcome \<times> world" where
  "on_joined factory p args w =
     (let w1 = w\<lparr> invoked := invoked w @ [(p, args)] \<rparr>
      in case factory (length (invoked w)) args of
           Inl err \<Rightarrow> (Rejected err, w1)
         | Inr i \<Rightarrow>
             (let w2 = w1\<lparr> emitted := emitted w1 @ [i] \<rparr>;
                  w3 = (if truthy (this_singleton w2) then w2\<lparr> this_instance := Plain i \<rparr> else w2)
              in (resolved i, w3)))"

text \<open>
  The job of call number p: nothing while the join is pending or once \<^verbatim>\<open>p\<close> has settled;
  a rejected join rejects \<^verbatim>\<open>p\<close> with the same reason; a fulfilled join runs the callback.
\<close>

definition tick :: "(nat \<Rightarrow> jsval list \<Rightarrow> jsval + jsval) \<Rightarrow> nat \<Rightarrow> world \<Rightarrow> world" where
  "tick factory p w =
     (if p < length (tasks w) \<and> outcome (tasks w ! p) = None then
        (case joined (tasks w ! p) of
           JPending \<Rightarrow> w
         | JRejected e \<Rightarrow> conclude p (Rejected e) w
         | JFulfilled args \<Rightarrow>
             (case on_joined factory p args w of (x, w') \<Rightarrow> conclude p x w'))
      else w)"

subsection \<open>Runs\<close>

datatype event = Create | Settle nat outcome | Tick nat

fun step ::
  "(nat \<Rightarrow> jsval \<Rightarrow> dep_result) \<Rightarrow> (nat \<Rightarrow> jsval list \<Rightarrow> jsval + jsval) \<Rightarrow>
   world \<Rightarrow> event \<Rightarrow> world" where
  "step container factory w Create = snd (create container w)"
| "step container factory w (Settle r x) = settle r x w"
| "step container factory w (Tick p) = tick factory p w"

definition run ::
  "(nat \<Rightarrow> jsval \<Rightarrow> dep_result) \<Rightarrow> (nat \<Rightarrow> jsval list \<Rightarrow> jsval + jsval) \<Rightarrow>
   world \<Rightarrow> event list \<Rightarrow> world" where
  "run container factory w es = foldl (step container factory) w es"

text \<open>A specification fresh from its constructor: nothing cached, nothing asked.\<close>

definition init :: "jsval list \<Rightarrow> jsval \<Rightarrow> world" where
  "init deps sing =
     \<lparr> this_dependencies = deps, this_singleton = sing, this_instance = Plain JUndefined,
       settled = Map.empty, tasks = [], requested = [], invoked = [], emitted = [] \<rparr>"

text \<open>
  From the constructor to the resolution: the state of a specification that the
  constructor built, where its \<^verbatim>\<open>dependencies\<close> are an array, as the descriptor format
  has it.
\<close>

definition fresh :: "spec \<Rightarrow> world option" where
  "fresh sp =
     (case dependencies sp of
        JArr ids \<Rightarrow> Some (init ids (singleton sp))
      | _ \<Rightarrow> None)"

subsection \<open>Invariants of the reachable states\<close>

text \<open>
  The cache: a cached promise is one of the calls; for a singleton every call whose
  promise is pending or rejected is the cached one; a specification that is no singleton
  caches nothing; a cached value was made by the factory.
\<close>

definition cache_inv :: "world \<Rightarrow> bool" where
  "cache_inv w \<longleftrightarrow>
     (\<forall>p. this_instance w = Future p \<longrightarrow> p < length (tasks w)) \<and>
     (truthy (this_singleton w) \<longrightarrow>
        (\<forall>p < length (tasks w).
           outcome (tasks w ! p) = None \<or> (\<exists>e. outcome (tasks w ! p) = Some (Rejected e)) \<longrightarrow>
           this_instance w = Future p)) \<and>
     (\<not> truthy (this_singleton w) \<longrightarrow> this_instance w = Plain JUndefined) \<and>
     (\<forall>i. this_instance w = Plain i \<longrightarrow>
        i = JUndefined \<or> (truthy (this_singleton w) \<and> i \<in> set (emitted w)))"

text \<open>
  The log of the factory's calls: each was made by a call of \<^verbatim>\<open>create\<close> whose join
  fulfilled with just those arguments and whose promise is no longer pending, and no call of
  \<^verbatim>\<open>create\<close> made two.
\<close>

definition log_inv :: "world \<Rightarrow> bool" where
  "log_inv w \<longleftrightarrow>
     (\<forall>p args. (p, args) \<in> set (invoked w) \<longrightarrow>
        p < length (tasks w) \<and> joined (tasks w ! p) = JFulfilled args \<and>
        outcome (tasks w ! p) \<noteq> None) \<and>
     distinct (map fst (invoked w))"

text \<open>
  Why a promise \<^verbatim>\<open>p\<close> is no longer pending: never on a pending join; on a rejected
  join rejected with the join's reason; on a fulfilled join by what the factory did.
\<close>

fun justified ::
  "(nat \<Rightarrow> jsval list \<Rightarrow> jsval + jsval) \<Rightarrow> (nat \<times> jsval list) list \<Rightarrow> nat \<Rightarrow> join \<Rightarrow>
   outcome \<Rightarrow> bool" where
  "justified f log p JPending x = False"
| "justified f log p (JRejected e) x = (x = Rejected e)"
| "justified f log p (JFulfilled args) x =
     (\<exists>k < length log. log ! k = (p, args) \<and>
        x = (case f k args of Inl err \<Rightarrow> Rejected err | Inr i \<Rightarrow> resolved i))"

definition outcome_inv :: "(nat \<Rightarrow> jsval list \<Rightarrow> jsval + jsval) \<Rightarrow> world \<Rightarrow> bool" where
  "outcome_inv f w \<longleftrightarrow>
     (\<forall>p < length (tasks w). \<forall>x. outcome (tasks w ! p) = Some x \<longrightarrow>
        justified f (invoked w) p (joined (tasks w ! p)) x)"

text \<open>
  The join agrees with the store: fulfilled with the values of its elements, in order;
  rejected with the reason of a rejected element; pending only while no element is
  rejected and some element has no value.
\<close>

definition values_inv :: "world \<Rightarrow> bool" where
  "values_inv w \<longleftrightarrow>
     (\<forall>p < length (tasks w).
        (\<forall>args. joined (tasks w ! p) = JFulfilled args \<longrightarrow>
           all_values (settled w) (waits (tasks w ! p)) = Some args) \<and>
        (\<forall>e. joined (tasks w ! p) = JRejected e \<longrightarrow>
           (\<exists>d \<in> set (waits (tasks w ! p)). rejection_of (settled w) d = Some e)) \<and>
        (joined (tasks w ! p) = JPending \<longrightarrow>
           all_values (settled w) (waits (tasks w ! p)) = None \<and>
           first_rejection (settled w) (waits (tasks w ! p)) = None))"

text \<open>
  Call number p of \<^verbatim>\<open>create\<close> holds the answers to its own requests, one per
  dependency, in the order of the array.
\<close>

definition waits_inv :: "(nat \<Rightarrow> jsval \<Rightarrow> dep_result) \<Rightarrow> world \<Rightarrow> bool" where
  "waits_inv c w \<longleftrightarrow>
     length (requested w) = length (tasks w) * length (this_dependencies w) \<and>
     (\<forall>p < length (tasks w).
        waits (tasks w ! p) =
          fan_out c (p * length (this_dependencies w)) (this_dependencies w))"


text \<open>
  How many calls of the factory the cache of a singleton allows for: one for each falsy
  instance made so far, and one more once the cached promise has settled or a truthy
  instance is cached.
\<close>

definition cached_calls :: "world \<Rightarrow> nat" where
  "cached_calls w =
     length (filter (\<lambda>v. \<not> truthy v) (emitted w)) +
     (case this_instance w of
        Future p \<Rightarrow> (if outcome (tasks w ! p) = None then 0 else 1)
      | Plain v \<Rightarrow> (if truthy v then 1 else 0))"

section \<open>Properties of the constructor\<close>

subsection \<open>Keys\<close>

lemma indexOf_lower: "- 1 \<le> indexOf s c"
  by (induction s) (auto simp: Let_def)

lemma indexOf_zero_iff: "indexOf k c = 0 \<longleftrightarrow> (\<exists>xs. k = c # xs)"
proof (cases k)
  case Nil
  then show ?thesis by simp
next
  case (Cons x xs)
  have "- 1 \<le> indexOf xs c" by (rule indexOf_lower)
  with Cons show ?thesis by (auto simp: Let_def)
qed

lemma index_key_head: "index_key n \<noteq> [] \<and> hd (index_key n) \<in> set ''0123456789''"
proof (induction n rule: index_key.induct)
  case (1 n)
  show ?case
  proof (cases "n < 10")
    case True
    then have "n \<in> {0,1,2,3,4,5,6,7,8,9}" by auto
    then show ?thesis by (subst index_key.simps, subst (2) index_key.simps) auto
  next
    case False
    with 1 show ?thesis by (subst index_key.simps, subst (2) index_key.simps) auto
  qed
qed

lemma index_key_not_reserved: "indexOf (index_key n) CHR ''@'' \<noteq> 0"
  using index_key_head [of n] by (auto simp: indexOf_zero_iff)

lemma get_prop_object:
  "v \<noteq> JUndefined \<Longrightarrow> v \<noteq> JNull \<Longrightarrow>
   get_prop v k = Inr (case lookup v k of Some x \<Rightarrow> x | None \<Rightarrow> JUndefined)"
  by (simp add: get_prop_def)

lemma own_enumerable_SomeD:
  assumes "own_enumerable v k = Some x"
  shows "map_of (own_props v) k = Some (True, x)"
proof (cases "map_of (own_props v) k")
  case None
  with assms show ?thesis by (simp add: own_enumerable_def)
next
  case (Some q)
  obtain e y where q: "q = (e, y)" by (cases q)
  with Some assms show ?thesis by (cases e) (simp_all add: own_enumerable_def)
qed

lemma own_enumerable_lookup: "own_enumerable v k = Some x \<Longrightarrow> lookup v k = Some x"
  by (drule own_enumerable_SomeD) (simp add: lookup_def)

lemma own_enumerable_is_own:
  assumes "own_enumerable v k = Some x"
  shows "k \<in> set (remdups (map fst (own_props v)))"
proof -
  from assms have "map_of (own_props v) k = Some (True, x)" by (rule own_enumerable_SomeD)
  then have "(k, True, x) \<in> set (own_props v)" by (rule map_of_SomeD)
  then have "fst (k, True, x) \<in> fst ` set (own_props v)" by (rule imageI)
  then show ?thesis by simp
qed

lemma object_keys_member:
  assumes "v \<noteq> JUndefined" "v \<noteq> JNull"
  shows "\<exists>ks. object_keys v = Inr ks \<and> (\<forall>k. k \<in> set ks \<longleftrightarrow> own_enumerable v k \<noteq> None)"
proof -
  let ?ks = "filter (\<lambda>k. own_enumerable v k \<noteq> None) (remdups (map fst (own_props v)))"
  have "k \<in> set ?ks \<longleftrightarrow> own_enumerable v k \<noteq> None" for k
  proof (cases "own_enumerable v k")
    case None
    then show ?thesis by simp
  next
    case (Some x)
    from own_enumerable_is_own [OF this] Some show ?thesis by simp
  qed
  with assms show ?thesis by (simp add: object_keys_def)
qed

subsection \<open>The loop over the keys\<close>

lemma copy_annotations_defined:
  assumes "m \<noteq> JUndefined" "m \<noteq> JNull"
  shows "\<exists>a'. copy_annotations m ks a = Inr a' \<and>
           (\<forall>k. map_of a' k =
              (if k \<in> set ks \<and> indexOf k CHR ''@'' = 0
               then Some (case lookup m k of Some x \<Rightarrow> x | None \<Rightarrow> JUndefined)
               else map_of a k))"
  using assms
proof (induction ks arbitrary: a)
  case Nil
  then show ?case by simp
next
  case (Cons k ks)
  show ?case
  proof (cases "indexOf k CHR ''@'' = 0")
    case True
    let ?v = "case lookup m k of Some x \<Rightarrow> x | None \<Rightarrow> JUndefined"
    from Cons.IH [OF Cons.prems, of "AList.update k ?v a"]
    obtain a' where a': "copy_annotations m ks (AList.update k ?v a) = Inr a'"
      and m: "\<forall>k'. map_of a' k' =
              (if k' \<in> set ks \<and> indexOf k' CHR ''@'' = 0
               then Some (case lookup m k' of Some x \<Rightarrow> x | None \<Rightarrow> JUndefined)
               else map_of (AList.update k ?v a) k')" by blast
    from True a' Cons.prems have "copy_annotations m (k # ks) a = Inr a'"
      by (simp add: get_prop_object)
    moreover from m True have "\<forall>k'. map_of a' k' =
              (if k' \<in> set (k # ks) \<and> indexOf k' CHR ''@'' = 0
               then Some (case lookup m k' of Some x \<Rightarrow> x | None \<Rightarrow> JUndefined)
               else map_of a k')"
      by (auto simp: update_conv')
    ultimately show ?thesis by blast
  next
    case False
    from Cons.IH [OF Cons.prems, of a] False show ?thesis by auto
  qed
qed

subsection \<open>What the constructor builds\<close>

text \<open>
  The typed fields come from \<^verbatim>\<open>mod[key]\<close>, whatever kind of property it finds; the
  annotations are the own enumerable properties whose names begin with \<^verbatim>\<open>@\<close>, and
  nothing else.
\<close>

lemma Spec_typed_fields:
  assumes "m \<noteq> JUndefined" "m \<noteq> JNull"
  shows "\<exists>s. Spec i m src = Inr s \<and> spec_id s = i \<and> source s = src \<and>
           dependencies s =
             or_else (case lookup m ''@require'' of Some x \<Rightarrow> x | None \<Rightarrow> JUndefined)
               (JArr []) \<and>
           singleton s =
             (case lookup m ''@singleton'' of Some x \<Rightarrow> x | None \<Rightarrow> JUndefined) \<and>
           implements s =
             (let impl = or_else (case lookup m ''@implements'' of
                                    Some x \<Rightarrow> x | None \<Rightarrow> JUndefined) (JArr [])
              in if typeof impl = TString then JArr [impl] else impl) \<and>
           (\<forall>k. map_of (annotations s) k =
              (if indexOf k CHR ''@'' = 0 then own_enumerable m k else None))"
proof (cases "typeof m = TObject \<or> typeof m = TFunction")
  case True
  from object_keys_member [OF assms]
  obtain ks where ks: "object_keys m = Inr ks"
    and mem: "\<forall>k. k \<in> set ks \<longleftrightarrow> own_enumerable m k \<noteq> None" by blast
  from copy_annotations_defined [OF assms, of ks "[]"]
  obtain a' where a': "copy_annotations m ks [] = Inr a'"
    and m: "\<forall>k. map_of a' k =
              (if k \<in> set ks \<and> indexOf k CHR ''@'' = 0
               then Some (case lookup m k of Some x \<Rightarrow> x | None \<Rightarrow> JUndefined)
               else map_of [] k)" by blast
  have "\<forall>k. map_of a' k = (if indexOf k CHR ''@'' = 0 then own_enumerable m k else None)"
  proof
    fix k
    show "map_of a' k = (if indexOf k CHR ''@'' = 0 then own_enumerable m k else None)"
    proof (cases "own_enumerable m k")
      case None
      with mem have "k \<notin> set ks" by simp
      with m None show ?thesis by simp
    next
      case (Some x)
      with mem have "k \<in> set ks" by simp
      moreover from Some have "lookup m k = Some x" by (rule own_enumerable_lookup)
      ultimately show ?thesis using m Some by simp
    qed
  qed
  with True ks a' assms show ?thesis
    by (simp add: Spec_def get_prop_object Let_def)
next
  case False
  then have "own_props m = []" by (cases m) simp_all
  then have "own_enumerable m k = None" for k by (simp add: own_enumerable_def)
  with False assms show ?thesis
    by (simp add: Spec_def get_prop_object Let_def)
qed

lemma Spec_fresh:
  assumes "m \<noteq> JUndefined" "m \<noteq> JNull"
    and "lookup m ''@require'' = Some (JArr ids)"
  shows "\<exists>s. Spec i m src = Inr s \<and>
           fresh s = Some (init ids
             (case lookup m ''@singleton'' of Some x \<Rightarrow> x | None \<Rightarrow> JUndefined))"
proof -
  from Spec_typed_fields [OF assms(1,2), of i src] assms(3)
  obtain s where "Spec i m src = Inr s" "dependencies s = JArr ids"
    "singleton s = (case lookup m ''@singleton'' of Some x \<Rightarrow> x | None \<Rightarrow> JUndefined)"
    by (auto simp: or_else_def)
  then show ?thesis by (auto simp: fresh_def)
qed

subsection \<open>Descriptors that are no objects\<close>

text \<open>
  Claim C6, as the specification states it: for every descriptor that is neither an
  object nor a function, null and undefined included, the constructor does not fail.
  It does fail on undefined and on null: line 44 reads \<^verbatim>\<open>mod['@require']\<close> before
  anything looks at the type of \<^verbatim>\<open>mod\<close>, and reading a property of undefined or of
  null throws a TypeError.
\<close>

theorem Spec_nullish_counterexample:
  "Spec (JStr ''svc'') JUndefined (JNum 1) = Inl TypeError \<and>
   Spec (JStr ''svc'') JNull (JNum 1) = Inl TypeError"
  by (simp add: Spec_def get_prop_def)

text \<open>
  Claim C6, amended: for every descriptor that is a boolean, a number or a string (any
  value whose type is neither object nor function, undefined apart), the constructor
  succeeds; the annotations are empty, the dependencies and the implemented names are
  the empty array, and the singleton flag is undefined, which counts as false.
\<close>

theorem Spec_primitive_descriptor:
  assumes "typeof m \<noteq> TObject" and "typeof m \<noteq> TFunction" and "m \<noteq> JUndefined"
  shows "Spec i m src =
           Inr \<lparr> spec_id = i, dependencies = JArr [], singleton = JUndefined,
                 implements = JArr [], annotations = [], source = src \<rparr> \<and>
         \<not> truthy JUndefined"
  using assms by (cases m) (simp_all add: Spec_def get_prop_def lookup_def or_else_def Let_def)

theorem Spec_primitive_descriptor_witness:
  "typeof (JStr ''literal'') \<noteq> TObject \<and> typeof (JStr ''literal'') \<noteq> TFunction \<and>
   JStr ''literal'' \<noteq> JUndefined \<and>
   Spec (JStr ''svc'') (JStr ''literal'') (JNum 1) =
     Inr \<lparr> spec_id = JStr ''svc'', dependencies = JArr [], singleton = JUndefined,
           implements = JArr [], annotations = [], source = JNum 1 \<rparr>"
  using Spec_primitive_descriptor [of "JStr ''literal''" "JStr ''svc''" "JNum 1"] by simp

subsection \<open>Defaults, and one name for \<^verbatim>\<open>@implements\<close>\<close>

text \<open>
  Claim C7, as the specification states it: with the three reserved keys absent the
  dependencies are the empty sequence, the singleton flag is false and the implemented
  names are the empty set; and a single string under \<^verbatim>\<open>@implements\<close> becomes the
  collection of that one string. The empty string does not: \<^verbatim>\<open>'' || []\<close> is the empty
  array, so line 46 has dropped the string before line 47 asks for its type. The same
  run shows the flag of a descriptor without \<^verbatim>\<open>@singleton\<close>: undefined, not the boolean
  false. And a descriptor that is null has none of the three keys, yet no defaults: the
  constructor throws.
\<close>

theorem Spec_empty_implements_counterexample:
  "Spec (JStr ''svc'') (JObj [(''@implements'', True, JStr '''')] []) (JNum 1) =
     Inr \<lparr> spec_id = JStr ''svc'', dependencies = JArr [], singleton = JUndefined,
           implements = JArr [], annotations = [(''@implements'', JStr '''')],
           source = JNum 1 \<rparr> \<and>
   Spec (JStr ''svc'') JNull (JNum 1) = Inl TypeError"
  by (simp add: Spec_def get_prop_def lookup_def own_enumerable_def object_keys_def
        or_else_def Let_def)

text \<open>
  Claim C7, amended: for every descriptor other than null and undefined on which
  \<^verbatim>\<open>mod[key]\<close> finds none of the three reserved keys, the dependencies and the implemented
  names are the empty array and the singleton flag is undefined, which counts as false;
  and a string that is not empty under \<^verbatim>\<open>@implements\<close> becomes the array of that one
  string.
\<close>

theorem Spec_defaults_and_single_name:
  assumes "m \<noteq> JUndefined" and "m \<noteq> JNull"
  shows "(lookup m ''@require'' = None \<and>
          lookup m ''@singleton'' = None \<and>
          lookup m ''@implements'' = None \<longrightarrow>
            (\<exists>s. Spec i m src = Inr s \<and> dependencies s = JArr [] \<and>
                 singleton s = JUndefined \<and> \<not> truthy (singleton s) \<and>
                 implements s = JArr [])) \<and>
         (\<forall>n. n \<noteq> [] \<and> lookup m ''@implements'' = Some (JStr n) \<longrightarrow>
            (\<exists>s. Spec i m src = Inr s \<and> implements s = JArr [JStr n]))"
proof (intro conjI allI impI)
  assume "lookup m ''@require'' = None \<and>
          lookup m ''@singleton'' = None \<and>
          lookup m ''@implements'' = None"
  with Spec_typed_fields [OF assms, of i src]
  show "\<exists>s. Spec i m src = Inr s \<and> dependencies s = JArr [] \<and>
                 singleton s = JUndefined \<and> \<not> truthy (singleton s) \<and>
                 implements s = JArr []"
    by (auto simp: or_else_def)
next
  fix n assume "n \<noteq> [] \<and> lookup m ''@implements'' = Some (JStr n)"
  with Spec_typed_fields [OF assms, of i src]
  show "\<exists>s. Spec i m src = Inr s \<and> implements s = JArr [JStr n]"
    by (auto simp: or_else_def)
qed

theorem Spec_defaults_and_single_name_witness:
  "JObj [(''name'', True, JStr ''db'')] [] \<noteq> JUndefined \<and>
   JObj [(''name'', True, JStr ''db'')] [] \<noteq> JNull \<and>
   lookup (JObj [(''name'', True, JStr ''db'')] []) ''@require'' = None \<and>
   lookup (JObj [(''name'', True, JStr ''db'')] []) ''@singleton'' = None \<and>
   lookup (JObj [(''name'', True, JStr ''db'')] []) ''@implements'' = None \<and>
   Spec (JStr ''svc'') (JObj [(''name'', True, JStr ''db'')] []) (JNum 1) =
     Inr \<lparr> spec_id = JStr ''svc'', dependencies = JArr [], singleton = JUndefined,
           implements = JArr [], annotations = [], source = JNum 1 \<rparr> \<and>
   ''Foo'' \<noteq> [] \<and>
   lookup (JObj [(''@implements'', True, JStr ''Foo'')] []) ''@implements'' = Some (JStr ''Foo'') \<and>
   Spec (JStr ''svc'') (JObj [(''@implements'', True, JStr ''Foo'')] []) (JNum 1) =
     Inr \<lparr> spec_id = JStr ''svc'', dependencies = JArr [], singleton = JUndefined,
           implements = JArr [JStr ''Foo''], annotations = [(''@implements'', JStr ''Foo'')],
           source = JNum 1 \<rparr>"
  using Spec_defaults_and_single_name
      [of "JObj [(''name'', True, JStr ''db'')] []" "JStr ''svc''" "JNum 1"]
    Spec_defaults_and_single_name
      [of "JObj [(''@implements'', True, JStr ''Foo'')] []" "JStr ''svc''" "JNum 1"]
  by (simp add: Spec_def get_prop_def lookup_def own_enumerable_def object_keys_def
        or_else_def Let_def)

subsection \<open>Annotations\<close>




section \<open>Properties of the resolution\<close>

subsection \<open>What each operation leaves alone\<close>

lemma settle_frame [simp]:
  "this_dependencies (settle r x w) = this_dependencies w"
  "this_singleton (settle r x w) = this_singleton w"
  "this_instance (settle r x w) = this_instance w"
  "requested (settle r x w) = requested w"
  "invoked (settle r x w) = invoked w"
  "emitted (settle r x w) = emitted w"
  "length (tasks (settle r x w)) = length (tasks w)"
  by (simp_all add: settle_def Let_def)

lemma react_frame [simp]:
  "waits (react r x s tk) = waits tk"
  "outcome (react r x s tk) = outcome tk"
  by (simp_all add: react_def split: outcome.split option.split)

lemma settle_task [simp]:
  "p < length (tasks w) \<Longrightarrow> waits (tasks (settle r x w) ! p) = waits (tasks w ! p)"
  "p < length (tasks w) \<Longrightarrow> outcome (tasks (settle r x w) ! p) = outcome (tasks w ! p)"
  by (simp_all add: settle_def Let_def)

lemma settle_joined:
  "p < length (tasks w) \<Longrightarrow>
   joined (tasks (settle r x w) ! p) =
     (if settled w r \<noteq> None then joined (tasks w ! p)
      else joined (react r x ((settled w)(r \<mapsto> x)) (tasks w ! p)))"
  by (simp add: settle_def Let_def)

lemma settle_settled:
  "settled (settle r x w) = (if settled w r \<noteq> None then settled w else (settled w)(r \<mapsto> x))"
  by (simp add: settle_def Let_def)

lemma tick_frame [simp]:
  "this_dependencies (tick f p w) = this_dependencies w"
  "this_singleton (tick f p w) = this_singleton w"
  "settled (tick f p w) = settled w"
  "requested (tick f p w) = requested w"
  "length (tasks (tick f p w)) = length (tasks w)"
  by (simp_all add: tick_def conclude_def on_joined_def Let_def split: join.split sum.split)

lemma tick_task [simp]:
  "q < length (tasks w) \<Longrightarrow> waits (tasks (tick f p w) ! q) = waits (tasks w ! q)"
  "q < length (tasks w) \<Longrightarrow> joined (tasks (tick f p w) ! q) = joined (tasks w ! q)"
  by (simp_all add: tick_def conclude_def on_joined_def Let_def nth_list_update
        split: join.split sum.split)

lemma tick_other [simp]:
  "q < length (tasks w) \<Longrightarrow> q \<noteq> p \<Longrightarrow> outcome (tasks (tick f p w) ! q) = outcome (tasks w ! q)"
  by (simp add: tick_def conclude_def on_joined_def Let_def nth_list_update
        split: join.split sum.split)

lemma tick_disabled:
  "\<not> (p < length (tasks w) \<and> outcome (tasks w ! p) = None \<and> joined (tasks w ! p) \<noteq> JPending)
   \<Longrightarrow> tick f p w = w"
  by (auto simp: tick_def split: join.split)

lemma tick_rejected:
  "p < length (tasks w) \<Longrightarrow> outcome (tasks w ! p) = None \<Longrightarrow> joined (tasks w ! p) = JRejected e \<Longrightarrow>
   tick f p w = conclude p (Rejected e) w"
  by (simp add: tick_def)

lemma tick_fulfilled:
  "p < length (tasks w) \<Longrightarrow> outcome (tasks w ! p) = None \<Longrightarrow> joined (tasks w ! p) = JFulfilled args \<Longrightarrow>
   tick f p w = (case on_joined f p args w of (x, w') \<Rightarrow> conclude p x w')"
  by (simp add: tick_def)

lemma create_frame [simp]:
  "this_dependencies (snd (create c w)) = this_dependencies w"
  "this_singleton (snd (create c w)) = this_singleton w"
  "settled (snd (create c w)) = settled w"
  "invoked (snd (create c w)) = invoked w"
  "emitted (snd (create c w)) = emitted w"
  by (simp_all add: create_def Let_def)

lemma create_hit:
  "truthy_slot (this_instance w) \<Longrightarrow> create c w = (this_instance w, w)"
  by (simp add: create_def)

lemma create_miss:
  "\<not> truthy_slot (this_instance w) \<Longrightarrow>
   fst (create c w) = Future (length (tasks w)) \<and>
   tasks (snd (create c w)) = tasks w @
     [\<lparr> waits = fan_out c (length (requested w)) (this_dependencies w),
        joined = promise_all (settled w) (fan_out c (length (requested w)) (this_dependencies w)),
        outcome = None \<rparr>] \<and>
   requested (snd (create c w)) = requested w @ this_dependencies w \<and>
   this_instance (snd (create c w)) =
     (if truthy (this_singleton w) then Future (length (tasks w)) else this_instance w)"
  by (simp add: create_def Let_def)

lemma create_old_task [simp]:
  "q < length (tasks w) \<Longrightarrow> tasks (snd (create c w)) ! q = tasks w ! q"
  by (simp add: create_def Let_def nth_append)

lemma run_Nil [simp]: "run c f w [] = w"
  by (simp add: run_def)

lemma run_Cons [simp]: "run c f w (e # es) = run c f (step c f w e) es"
  by (simp add: run_def)

lemma run_append: "run c f w (es @ es') = run c f (run c f w es) es'"
  by (simp add: run_def)

lemma run_snoc: "run c f w (es @ [e]) = step c f (run c f w es) e"
  by (simp add: run_def)

lemma run_frame [simp]:
  "this_dependencies (run c f w es) = this_dependencies w"
  "this_singleton (run c f w es) = this_singleton w"
proof (induction es arbitrary: w)
  case Nil
  { case 1 show ?case by simp }
  { case 2 show ?case by simp }
next
  case (Cons e es)
  { case 1 show ?case by (cases e) (simp_all add: Cons.IH) }
  { case 2 show ?case by (cases e) (simp_all add: Cons.IH) }
qed

subsection \<open>The cache\<close>

lemma cache_invD1: "cache_inv w \<Longrightarrow> this_instance w = Future p \<Longrightarrow> p < length (tasks w)"
  unfolding cache_inv_def by blast

lemma cache_invD2:
  "cache_inv w \<Longrightarrow> truthy (this_singleton w) \<Longrightarrow> p < length (tasks w) \<Longrightarrow>
   outcome (tasks w ! p) = None \<or> (\<exists>e. outcome (tasks w ! p) = Some (Rejected e)) \<Longrightarrow>
   this_instance w = Future p"
  unfolding cache_inv_def by blast

lemma cache_invD3: "cache_inv w \<Longrightarrow> \<not> truthy (this_singleton w) \<Longrightarrow> this_instance w = Plain JUndefined"
  unfolding cache_inv_def by blast

lemma cache_invD4:
  "cache_inv w \<Longrightarrow> this_instance w = Plain i \<Longrightarrow>
   i = JUndefined \<or> (truthy (this_singleton w) \<and> i \<in> set (emitted w))"
  unfolding cache_inv_def by blast

lemma cache_inv_init: "cache_inv (init deps sing)"
  by (simp add: cache_inv_def init_def)

lemma cache_inv_create: "cache_inv w \<Longrightarrow> cache_inv (snd (create c w))"
proof (cases "truthy_slot (this_instance w)")
  case True
  assume "cache_inv w"
  with True show ?thesis by (simp add: create_hit)
next
  case False
  assume inv: "cache_inv w"
  note m = create_miss [OF False, of c]
  have nofut: "\<And>p. this_instance w \<noteq> Future p"
    using False by (cases "this_instance w") auto
  from m have mi: "this_instance (snd (create c w)) =
     (if truthy (this_singleton w) then Future (length (tasks w)) else this_instance w)"
    and ml: "length (tasks (snd (create c w))) = Suc (length (tasks w))"
    by simp_all
  show ?thesis
    unfolding cache_inv_def
  proof (intro conjI allI impI)
    fix p assume "this_instance (snd (create c w)) = Future p"
    with mi nofut [of p] have "p = length (tasks w)"
      by (simp split: if_splits)
    with ml show "p < length (tasks (snd (create c w)))" by simp
  next
    fix p assume s: "truthy (this_singleton (snd (create c w)))"
      and p: "p < length (tasks (snd (create c w)))"
      and nf: "outcome (tasks (snd (create c w)) ! p) = None \<or>
        (\<exists>e. outcome (tasks (snd (create c w)) ! p) = Some (Rejected e))"
    show "this_instance (snd (create c w)) = Future p"
    proof (cases "p < length (tasks w)")
      case True
      with nf have "outcome (tasks w ! p) = None \<or> (\<exists>e. outcome (tasks w ! p) = Some (Rejected e))"
        by simp
      with inv s True have "this_instance w = Future p" by (simp add: cache_invD2)
      with nofut [of p] show ?thesis by simp
    next
      case False
      with p ml have "p = length (tasks w)" by simp
      with mi s show ?thesis by simp
    qed
  next
    assume "\<not> truthy (this_singleton (snd (create c w)))"
    then have "\<not> truthy (this_singleton w)" by simp
    with cache_invD3 [OF inv] mi show "this_instance (snd (create c w)) = Plain JUndefined"
      by simp
  next
    fix i assume "this_instance (snd (create c w)) = Plain i"
    with mi have "this_instance w = Plain i" by (simp split: if_splits)
    from cache_invD4 [OF inv this]
    show "i = JUndefined \<or> (truthy (this_singleton (snd (create c w))) \<and> i \<in> set (emitted (snd (create c w))))"
      by simp
  qed
qed

lemma cache_inv_cong:
  assumes "cache_inv w"
    and "this_instance w' = this_instance w" and "this_singleton w' = this_singleton w"
    and "emitted w' = emitted w" and "length (tasks w') = length (tasks w)"
    and "\<forall>p < length (tasks w). outcome (tasks w' ! p) = outcome (tasks w ! p)"
  shows "cache_inv w'"
  unfolding cache_inv_def assms(2,3,4,5)
proof (intro conjI allI impI)
  fix p assume "this_instance w = Future p"
  then show "p < length (tasks w)" by (rule cache_invD1 [OF assms(1)])
next
  fix p assume "truthy (this_singleton w)" "p < length (tasks w)"
    "outcome (tasks w' ! p) = None \<or> (\<exists>e. outcome (tasks w' ! p) = Some (Rejected e))"
  with assms(6) show "this_instance w = Future p"
    by (intro cache_invD2 [OF assms(1)]) simp_all
next
  assume "\<not> truthy (this_singleton w)"
  then show "this_instance w = Plain JUndefined" by (rule cache_invD3 [OF assms(1)])
next
  fix i assume "this_instance w = Plain i"
  then show "i = JUndefined \<or> truthy (this_singleton w) \<and> i \<in> set (emitted w)"
    by (rule cache_invD4 [OF assms(1)])
qed

lemma cache_inv_settle: "cache_inv w \<Longrightarrow> cache_inv (settle r x w)"
  by (erule cache_inv_cong) simp_all

lemma conclude_frame [simp]:
  "this_instance (conclude p x w) = this_instance w"
  "this_singleton (conclude p x w) = this_singleton w"
  "emitted (conclude p x w) = emitted w"
  "invoked (conclude p x w) = invoked w"
  "length (tasks (conclude p x w)) = length (tasks w)"
  by (simp_all add: conclude_def)

lemma conclude_outcome:
  "q < length (tasks w) \<Longrightarrow>
   outcome (tasks (conclude p x w) ! q) = (if q = p then Some x else outcome (tasks w ! q))"
  by (simp add: conclude_def nth_list_update)

lemma resolved_not_rejected [simp]: "resolved i \<noteq> Rejected e"
  by (simp add: resolved_def)

lemma resolved_inject [simp]: "resolved i = resolved j \<longleftrightarrow> i = j"
  by (auto simp: resolved_def)



lemma primitive_not_thenable [simp]:
  "\<not> thenable JUndefined" "\<not> thenable JNull" "\<not> thenable (JBool b)" "\<not> thenable (JNum n)"
  "\<not> thenable JNaN" "\<not> thenable (JStr s)"
  by (simp_all add: thenable_def)

lemma array_not_thenable [simp]: "\<not> thenable (JArr xs)"
proof -
  have notin: "''then'' \<notin> set (map index_key [0..<length xs])"
  proof
    assume "''then'' \<in> set (map index_key [0..<length xs])"
    then obtain n where "index_key n = ''then''" by auto
    with index_key_head [of n] show False by simp
  qed
  have len: "length (map index_key [0..<length xs]) = length (map (Pair True) xs)" by simp
  from map_of_zip_is_None [OF len, of "''then''"] notin
  have k: "map_of (zip (map index_key [0..<length xs]) (map (Pair True) xs)) ''then'' = None"
    by blast
  show ?thesis
    by (simp only: thenable_def lookup_def own_props.simps inherited.simps k option.simps
          map_of.simps simp_thms)
qed

lemma on_joined_frame [simp]:
  "tasks (snd (on_joined f p args w)) = tasks w"
  "this_singleton (snd (on_joined f p args w)) = this_singleton w"
  "invoked (snd (on_joined f p args w)) = invoked w @ [(p, args)]"
  by (simp_all add: on_joined_def Let_def split: sum.split)

lemma on_joined_cases:
  "(\<exists>err. f (length (invoked w)) args = Inl err \<and> fst (on_joined f p args w) = Rejected err \<and>
      this_instance (snd (on_joined f p args w)) = this_instance w \<and>
      emitted (snd (on_joined f p args w)) = emitted w) \<or>
   (\<exists>i. f (length (invoked w)) args = Inr i \<and> fst (on_joined f p args w) = resolved i \<and>
      this_instance (snd (on_joined f p args w)) =
        (if truthy (this_singleton w) then Plain i else this_instance w) \<and>
      emitted (snd (on_joined f p args w)) = emitted w @ [i])"
  by (cases "f (length (invoked w)) args") (simp_all add: on_joined_def Let_def)

lemma cache_inv_conclude_rejected:
  assumes inv: "cache_inv w" and p: "p < length (tasks w)" and pend: "outcome (tasks w ! p) = None"
    and i'': "this_instance w' = this_instance w"
    and e'': "set (emitted w') = set (emitted w)"
    and s': "this_singleton w' = this_singleton w"
    and t': "tasks w' = tasks w"
  shows "cache_inv (conclude p (Rejected e) w')"
proof -
  have cur: "truthy (this_singleton w) \<Longrightarrow> this_instance w = Future p"
    using pend by (intro cache_invD2 [OF inv _ p]) simp_all
  have only: "outcome (tasks w ! q) \<noteq> None \<and> (\<forall>e. outcome (tasks w ! q) \<noteq> Some (Rejected e))"
    if "truthy (this_singleton w)" "q < length (tasks w)" "q \<noteq> p" for q
  proof (rule ccontr)
    assume "\<not> (outcome (tasks w ! q) \<noteq> None \<and> (\<forall>e. outcome (tasks w ! q) \<noteq> Some (Rejected e)))"
    then have "outcome (tasks w ! q) = None \<or> (\<exists>e. outcome (tasks w ! q) = Some (Rejected e))"
      by blast
    from cache_invD2 [OF inv that(1,2) this] have "this_instance w = Future q" .
    with cur that show False by simp
  qed
  have non: "\<not> truthy (this_singleton w) \<Longrightarrow> this_instance w = Plain JUndefined"
    by (rule cache_invD3 [OF inv])
  show ?thesis
    unfolding cache_inv_def
  proof (intro conjI allI impI)
    fix q assume "this_instance (conclude p (Rejected e) w') = Future q"
    with i'' have "this_instance w = Future q" by simp
    from cache_invD1 [OF inv this] t' show "q < length (tasks (conclude p (Rejected e) w'))" by simp
  next
    fix q assume "truthy (this_singleton (conclude p (Rejected e) w'))"
      "q < length (tasks (conclude p (Rejected e) w'))"
      and nf: "outcome (tasks (conclude p (Rejected e) w') ! q) = None \<or>
        (\<exists>e'. outcome (tasks (conclude p (Rejected e) w') ! q) = Some (Rejected e'))"
    with s' t' have s: "truthy (this_singleton w)" and q: "q < length (tasks w)" by simp_all
    show "this_instance (conclude p (Rejected e) w') = Future q"
    proof (cases "q = p")
      case True
      with cur [OF s] i'' show ?thesis by simp
    next
      case False
      with q t' have "outcome (tasks (conclude p (Rejected e) w') ! q) = outcome (tasks w ! q)"
        by (simp add: conclude_outcome)
      with nf only [OF s q False] show ?thesis by simp
    qed
  next
    assume "\<not> truthy (this_singleton (conclude p (Rejected e) w'))"
    with s' non i'' show "this_instance (conclude p (Rejected e) w') = Plain JUndefined" by simp
  next
    fix i assume "this_instance (conclude p (Rejected e) w') = Plain i"
    with i'' have "this_instance w = Plain i" by simp
    with inv have "i = JUndefined \<or> (truthy (this_singleton w) \<and> i \<in> set (emitted w))"
      by (rule cache_invD4)
    with s' e'' show "i = JUndefined \<or>
        (truthy (this_singleton (conclude p (Rejected e) w')) \<and>
         i \<in> set (emitted (conclude p (Rejected e) w')))"
      by simp
  qed
qed

lemma cache_inv_conclude_made:
  assumes inv: "cache_inv w" and p: "p < length (tasks w)" and pend: "outcome (tasks w ! p) = None"
    and i'': "this_instance w' = (if truthy (this_singleton w) then Plain i else this_instance w)"
    and e'': "set (emitted w') = insert i (set (emitted w))"
    and s': "this_singleton w' = this_singleton w"
    and t': "tasks w' = tasks w"
  shows "cache_inv (conclude p (resolved i) w')"
proof -
  have cur: "truthy (this_singleton w) \<Longrightarrow> this_instance w = Future p"
    using pend by (intro cache_invD2 [OF inv _ p]) simp_all
  have only: "outcome (tasks w ! q) \<noteq> None \<and> (\<forall>e. outcome (tasks w ! q) \<noteq> Some (Rejected e))"
    if "truthy (this_singleton w)" "q < length (tasks w)" "q \<noteq> p" for q
  proof (rule ccontr)
    assume "\<not> (outcome (tasks w ! q) \<noteq> None \<and> (\<forall>e. outcome (tasks w ! q) \<noteq> Some (Rejected e)))"
    then have "outcome (tasks w ! q) = None \<or> (\<exists>e. outcome (tasks w ! q) = Some (Rejected e))"
      by blast
    from cache_invD2 [OF inv that(1,2) this] have "this_instance w = Future q" .
    with cur that show False by simp
  qed
  have non: "\<not> truthy (this_singleton w) \<Longrightarrow> this_instance w = Plain JUndefined"
    by (rule cache_invD3 [OF inv])
  let ?w = "conclude p (resolved i) w'"
  show ?thesis
    unfolding cache_inv_def
  proof (intro conjI allI impI)
    fix q assume "this_instance ?w = Future q"
    with i'' non have "this_instance w = Future q" by (simp split: if_splits)
    from cache_invD1 [OF inv this] t' show "q < length (tasks ?w)" by simp
  next
    fix q assume "truthy (this_singleton ?w)" "q < length (tasks ?w)"
      and nf: "outcome (tasks ?w ! q) = None \<or> (\<exists>e. outcome (tasks ?w ! q) = Some (Rejected e))"
    with s' t' have s: "truthy (this_singleton w)" and q: "q < length (tasks w)" by simp_all
    have "outcome (tasks ?w ! q) \<noteq> None \<and> (\<forall>e. outcome (tasks ?w ! q) \<noteq> Some (Rejected e))"
    proof (cases "q = p")
      case True
      with q t' show ?thesis by (simp add: conclude_outcome)
    next
      case False
      with q t' have "outcome (tasks ?w ! q) = outcome (tasks w ! q)"
        by (simp add: conclude_outcome)
      with only [OF s q False] show ?thesis by simp
    qed
    with nf show "this_instance ?w = Future q" by blast
  next
    assume "\<not> truthy (this_singleton ?w)"
    with s' non i'' show "this_instance ?w = Plain JUndefined" by simp
  next
    fix j assume "this_instance ?w = Plain j"
    with i'' have j: "(truthy (this_singleton w) \<and> j = i) \<or> this_instance w = Plain j"
      by (simp split: if_splits)
    from j show "j = JUndefined \<or> (truthy (this_singleton ?w) \<and> j \<in> set (emitted ?w))"
    proof
      assume "truthy (this_singleton w) \<and> j = i"
      with s' e'' show ?thesis by simp
    next
      assume "this_instance w = Plain j"
      with inv have "j = JUndefined \<or> (truthy (this_singleton w) \<and> j \<in> set (emitted w))"
        by (rule cache_invD4)
      with s' e'' show ?thesis by auto
    qed
  qed
qed

lemma cache_inv_tick: "cache_inv w \<Longrightarrow> cache_inv (tick f p w)"
proof (cases "p < length (tasks w) \<and> outcome (tasks w ! p) = None \<and> joined (tasks w ! p) \<noteq> JPending")
  case False
  assume "cache_inv w"
  with tick_disabled [OF False] show ?thesis by simp
next
  case True
  assume inv: "cache_inv w"
  from True have p: "p < length (tasks w)" and pend: "outcome (tasks w ! p) = None" by simp_all
  show ?thesis
  proof (cases "joined (tasks w ! p)")
    case JPending
    with True show ?thesis by simp
  next
    case (JRejected e)
    with p pend have t: "tick f p w = conclude p (Rejected e) w" by (simp add: tick_rejected)
    show ?thesis unfolding t
      by (rule cache_inv_conclude_rejected [OF inv p pend]) simp_all
  next
    case (JFulfilled args)
    with p pend have t: "tick f p w = conclude p (fst (on_joined f p args w)) (snd (on_joined f p args w))"
      by (simp add: tick_fulfilled split: prod.split)
    from on_joined_cases [of f w args p] show ?thesis
    proof (elim disjE exE conjE)
      fix err assume a: "fst (on_joined f p args w) = Rejected err"
        "this_instance (snd (on_joined f p args w)) = this_instance w"
        "emitted (snd (on_joined f p args w)) = emitted w"
      show ?thesis unfolding t a(1)
        by (rule cache_inv_conclude_rejected [OF inv p pend]) (simp_all add: a)
    next
      fix i assume a: "fst (on_joined f p args w) = resolved i"
        "this_instance (snd (on_joined f p args w)) =
          (if truthy (this_singleton w) then Plain i else this_instance w)"
        "emitted (snd (on_joined f p args w)) = emitted w @ [i]"
      show ?thesis unfolding t a(1)
        by (rule cache_inv_conclude_made [OF inv p pend]) (simp_all add: a)
    qed
  qed
qed

lemma cache_inv_step: "cache_inv w \<Longrightarrow> cache_inv (step c f w e)"
  by (cases e) (simp_all add: cache_inv_create cache_inv_settle cache_inv_tick)

lemma cache_inv_run: "cache_inv w \<Longrightarrow> cache_inv (run c f w es)"
  by (induction es arbitrary: w) (simp_all add: cache_inv_step)

lemma cache_inv_reachable: "cache_inv (run c f (init deps sing) es)"
  by (simp add: cache_inv_run cache_inv_init)

subsection \<open>The cases of a job\<close>

lemma tick_cases [case_names idle rejected threw made]:
  obtains "tick f p w = w"
  | e where "p < length (tasks w)" "outcome (tasks w ! p) = None"
      "joined (tasks w ! p) = JRejected e"
      "tasks (tick f p w) = (tasks w)[p := (tasks w ! p)\<lparr> outcome := Some (Rejected e) \<rparr>]"
      "invoked (tick f p w) = invoked w" "emitted (tick f p w) = emitted w"
      "this_instance (tick f p w) = this_instance w"
  | args err where "p < length (tasks w)" "outcome (tasks w ! p) = None"
      "joined (tasks w ! p) = JFulfilled args" "f (length (invoked w)) args = Inl err"
      "tasks (tick f p w) = (tasks w)[p := (tasks w ! p)\<lparr> outcome := Some (Rejected err) \<rparr>]"
      "invoked (tick f p w) = invoked w @ [(p, args)]" "emitted (tick f p w) = emitted w"
      "this_instance (tick f p w) = this_instance w"
  | args i where "p < length (tasks w)" "outcome (tasks w ! p) = None"
      "joined (tasks w ! p) = JFulfilled args" "f (length (invoked w)) args = Inr i"
      "tasks (tick f p w) = (tasks w)[p := (tasks w ! p)\<lparr> outcome := Some (resolved i) \<rparr>]"
      "invoked (tick f p w) = invoked w @ [(p, args)]" "emitted (tick f p w) = emitted w @ [i]"
      "this_instance (tick f p w) =
         (if truthy (this_singleton w) then Plain i else this_instance w)"
proof (cases "p < length (tasks w) \<and> outcome (tasks w ! p) = None")
  case False
  then have "tick f p w = w" by (intro tick_disabled) simp
  then show ?thesis by (rule that(1))
next
  case True
  then have p: "p < length (tasks w)" and pend: "outcome (tasks w ! p) = None" by simp_all
  show ?thesis
  proof (cases "joined (tasks w ! p)")
    case JPending
    then have "tick f p w = w" by (intro tick_disabled) simp
    then show ?thesis by (rule that(1))
  next
    case (JRejected e)
    with True show ?thesis
      by (intro that(2) [of e]) (simp_all add: tick_def conclude_def)
  next
    case (JFulfilled args)
    show ?thesis
    proof (cases "f (length (invoked w)) args")
      case (Inl err)
      with True JFulfilled show ?thesis
        by (intro that(3) [of args err]) (simp_all add: tick_def conclude_def on_joined_def)
    next
      case (Inr i)
      with True JFulfilled show ?thesis
        by (intro that(4) [of args i]) (simp_all add: tick_def conclude_def on_joined_def Let_def)
    qed
  qed
qed

subsection \<open>The log of the factory's calls\<close>

lemma log_invD:
  "log_inv w \<Longrightarrow> (p, args) \<in> set (invoked w) \<Longrightarrow>
   p < length (tasks w) \<and> joined (tasks w ! p) = JFulfilled args \<and> outcome (tasks w ! p) \<noteq> None"
  unfolding log_inv_def by blast

lemma log_inv_distinct: "log_inv w \<Longrightarrow> distinct (map fst (invoked w))"
  unfolding log_inv_def by blast

lemma log_invI:
  "(\<And>p args. (p, args) \<in> set (invoked w) \<Longrightarrow>
      p < length (tasks w) \<and> joined (tasks w ! p) = JFulfilled args \<and> outcome (tasks w ! p) \<noteq> None)
   \<Longrightarrow> distinct (map fst (invoked w)) \<Longrightarrow> log_inv w"
  unfolding log_inv_def by blast

lemma log_inv_init: "log_inv (init deps sing)"
  by (rule log_invI) (simp_all add: init_def)

lemma react_joined_keep: "joined tk \<noteq> JPending \<Longrightarrow> joined (react r x s tk) = joined tk"
  by (simp add: react_def)

lemma settle_joined_keep:
  "p < length (tasks w) \<Longrightarrow> joined (tasks w ! p) \<noteq> JPending \<Longrightarrow>
   joined (tasks (settle r x w) ! p) = joined (tasks w ! p)"
  by (simp add: settle_joined react_joined_keep)

lemma log_inv_settle:
  assumes "log_inv w" shows "log_inv (settle r x w)"
proof (rule log_invI)
  fix p args assume "(p, args) \<in> set (invoked (settle r x w))"
  then have "(p, args) \<in> set (invoked w)" by simp
  from log_invD [OF assms this]
  show "p < length (tasks (settle r x w)) \<and> joined (tasks (settle r x w) ! p) = JFulfilled args \<and>
        outcome (tasks (settle r x w) ! p) \<noteq> None"
    by (simp add: settle_joined_keep)
next
  from log_inv_distinct [OF assms] show "distinct (map fst (invoked (settle r x w)))" by simp
qed

lemma create_length: "length (tasks w) \<le> length (tasks (snd (create c w)))"
  by (simp add: create_def Let_def)

lemma log_inv_create:
  assumes "log_inv w" shows "log_inv (snd (create c w))"
proof (rule log_invI)
  fix p args assume "(p, args) \<in> set (invoked (snd (create c w)))"
  then have "(p, args) \<in> set (invoked w)" by simp
  from log_invD [OF assms this] create_length [of w c]
  show "p < length (tasks (snd (create c w))) \<and> joined (tasks (snd (create c w)) ! p) = JFulfilled args \<and>
        outcome (tasks (snd (create c w)) ! p) \<noteq> None"
    by simp
next
  from log_inv_distinct [OF assms] show "distinct (map fst (invoked (snd (create c w))))" by simp
qed

lemma log_inv_tick:
  assumes "log_inv w" shows "log_inv (tick f p w)"
proof (cases rule: tick_cases [of f p w])
  case idle
  with assms show ?thesis by simp
next
  case (rejected e)
  show ?thesis
  proof (rule log_invI)
    fix q args assume "(q, args) \<in> set (invoked (tick f p w))"
    with rejected have "(q, args) \<in> set (invoked w)" by simp
    from log_invD [OF assms this] rejected(1,3)
    show "q < length (tasks (tick f p w)) \<and> joined (tasks (tick f p w) ! q) = JFulfilled args \<and>
          outcome (tasks (tick f p w) ! q) \<noteq> None"
      by (simp add: rejected(4) nth_list_update)
  next
    from log_inv_distinct [OF assms] rejected show "distinct (map fst (invoked (tick f p w)))" by simp
  qed
next
  case (threw args err)
  have fresh: "p \<notin> fst ` set (invoked w)"
  proof
    assume "p \<in> fst ` set (invoked w)"
    then obtain a where "(p, a) \<in> set (invoked w)" by auto
    from log_invD [OF assms this] threw(2) show False by simp
  qed
  show ?thesis
  proof (rule log_invI)
    fix q a assume "(q, a) \<in> set (invoked (tick f p w))"
    with threw have "(q, a) \<in> set (invoked w) \<or> (q = p \<and> a = args)" by auto
    then show "q < length (tasks (tick f p w)) \<and> joined (tasks (tick f p w) ! q) = JFulfilled a \<and>
          outcome (tasks (tick f p w) ! q) \<noteq> None"
    proof
      assume "(q, a) \<in> set (invoked w)"
      from log_invD [OF assms this] threw(1) show ?thesis
        by (simp add: threw(5) nth_list_update)
    next
      assume "q = p \<and> a = args"
      with threw(1,3) show ?thesis by (simp add: threw(5))
    qed
  next
    from log_inv_distinct [OF assms] fresh threw(6)
    show "distinct (map fst (invoked (tick f p w)))" by simp
  qed
next
  case (made args i)
  have fresh: "p \<notin> fst ` set (invoked w)"
  proof
    assume "p \<in> fst ` set (invoked w)"
    then obtain a where "(p, a) \<in> set (invoked w)" by auto
    from log_invD [OF assms this] made(2) show False by simp
  qed
  show ?thesis
  proof (rule log_invI)
    fix q a assume "(q, a) \<in> set (invoked (tick f p w))"
    with made have "(q, a) \<in> set (invoked w) \<or> (q = p \<and> a = args)" by auto
    then show "q < length (tasks (tick f p w)) \<and> joined (tasks (tick f p w) ! q) = JFulfilled a \<and>
          outcome (tasks (tick f p w) ! q) \<noteq> None"
    proof
      assume "(q, a) \<in> set (invoked w)"
      from log_invD [OF assms this] made(1) show ?thesis
        by (simp add: made(5) nth_list_update)
    next
      assume "q = p \<and> a = args"
      with made(1,3) show ?thesis by (simp add: made(5))
    qed
  next
    from log_inv_distinct [OF assms] fresh made(6)
    show "distinct (map fst (invoked (tick f p w)))" by simp
  qed
qed

lemma log_inv_step: "log_inv w \<Longrightarrow> log_inv (step c f w e)"
  by (cases e) (simp_all add: log_inv_create log_inv_settle log_inv_tick)

lemma log_inv_run: "log_inv w \<Longrightarrow> log_inv (run c f w es)"
  by (induction es arbitrary: w) (simp_all add: log_inv_step)

subsection \<open>Why a promise settled\<close>

lemma outcome_invD:
  "outcome_inv f w \<Longrightarrow> p < length (tasks w) \<Longrightarrow> outcome (tasks w ! p) = Some x \<Longrightarrow>
   justified f (invoked w) p (joined (tasks w ! p)) x"
  unfolding outcome_inv_def by blast

lemma outcome_invI:
  "(\<And>p x. p < length (tasks w) \<Longrightarrow> outcome (tasks w ! p) = Some x \<Longrightarrow>
      justified f (invoked w) p (joined (tasks w ! p)) x) \<Longrightarrow> outcome_inv f w"
  unfolding outcome_inv_def by blast

lemma justified_not_pending: "justified f log p j x \<Longrightarrow> j \<noteq> JPending"
  by (cases j) simp_all

lemma justified_append: "justified f log p j x \<Longrightarrow> justified f (log @ rest) p j x"
proof (cases j)
  case (JFulfilled args)
  assume "justified f log p j x"
  with JFulfilled obtain k where "k < length log" "log ! k = (p, args)"
    "x = (case f k args of Inl err \<Rightarrow> Rejected err | Inr i \<Rightarrow> resolved i)" by auto
  then have "k < length (log @ rest) \<and> (log @ rest) ! k = (p, args) \<and>
    x = (case f k args of Inl err \<Rightarrow> Rejected err | Inr i \<Rightarrow> resolved i)"
    by (simp add: nth_append)
  with JFulfilled show ?thesis by auto
qed simp_all

lemma justified_last:
  "x = (case f (length log) args of Inl err \<Rightarrow> Rejected err | Inr i \<Rightarrow> resolved i) \<Longrightarrow>
   justified f (log @ [(p, args)]) p (JFulfilled args) x"
  by (auto intro!: exI [of _ "length log"])

lemma outcome_inv_init: "outcome_inv f (init deps sing)"
  by (rule outcome_invI) (simp add: init_def)

lemma outcome_inv_settle:
  assumes "outcome_inv f w" shows "outcome_inv f (settle r x w)"
proof (rule outcome_invI)
  fix p y assume "p < length (tasks (settle r x w))" "outcome (tasks (settle r x w) ! p) = Some y"
  then have p: "p < length (tasks w)" and y: "outcome (tasks w ! p) = Some y" by simp_all
  from outcome_invD [OF assms p y] have j: "justified f (invoked w) p (joined (tasks w ! p)) y" .
  then have "joined (tasks w ! p) \<noteq> JPending" by (rule justified_not_pending)
  with p have "joined (tasks (settle r x w) ! p) = joined (tasks w ! p)"
    by (rule settle_joined_keep)
  with j show "justified f (invoked (settle r x w)) p (joined (tasks (settle r x w) ! p)) y"
    by simp
qed

lemma outcome_inv_create:
  assumes "outcome_inv f w" shows "outcome_inv f (snd (create c w))"
proof (cases "truthy_slot (this_instance w)")
  case True
  with assms show ?thesis by (simp add: create_hit)
next
  case False
  note m = create_miss [OF False, of c]
  show ?thesis
  proof (rule outcome_invI)
    fix p y assume p: "p < length (tasks (snd (create c w)))"
      and y: "outcome (tasks (snd (create c w)) ! p) = Some y"
    have old: "p < length (tasks w)"
    proof (rule ccontr)
      assume "\<not> p < length (tasks w)"
      with p m have "p = length (tasks w)" by simp
      with m y show False by simp
    qed
    with y have "outcome (tasks w ! p) = Some y" by simp
    from outcome_invD [OF assms old this] old
    show "justified f (invoked (snd (create c w))) p (joined (tasks (snd (create c w)) ! p)) y"
      by simp
  qed
qed

lemma outcome_inv_tick:
  assumes "outcome_inv f w" shows "outcome_inv f (tick f p w)"
proof (cases rule: tick_cases [of f p w])
  case idle
  with assms show ?thesis by simp
next
  case (rejected e)
  show ?thesis
  proof (rule outcome_invI)
    fix q y assume "q < length (tasks (tick f p w))" and y: "outcome (tasks (tick f p w) ! q) = Some y"
    then have q: "q < length (tasks w)" by simp
    show "justified f (invoked (tick f p w)) q (joined (tasks (tick f p w) ! q)) y"
    proof (cases "q = p")
      case True
      with y rejected(1) have "y = Rejected e" by (simp add: rejected(4))
      with True q rejected(3) show ?thesis by simp
    next
      case False
      with y q have "outcome (tasks w ! q) = Some y" by simp
      from outcome_invD [OF assms q this] q rejected(5) show ?thesis by simp
    qed
  qed
next
  case (threw args err)
  show ?thesis
  proof (rule outcome_invI)
    fix q y assume "q < length (tasks (tick f p w))" and y: "outcome (tasks (tick f p w) ! q) = Some y"
    then have q: "q < length (tasks w)" by simp
    show "justified f (invoked (tick f p w)) q (joined (tasks (tick f p w) ! q)) y"
    proof (cases "q = p")
      case True
      with y threw(1) have "y = Rejected err" by (simp add: threw(5))
      with threw(4) have "y = (case f (length (invoked w)) args of Inl err \<Rightarrow> Rejected err | Inr i \<Rightarrow> resolved i)"
        by simp
      from justified_last [of y f "invoked w" args p, OF this] True q threw(3,6) show ?thesis by simp
    next
      case False
      with y q have "outcome (tasks w ! q) = Some y" by simp
      from outcome_invD [OF assms q this]
      have "justified f (invoked w @ [(p, args)]) q (joined (tasks w ! q)) y"
        by (rule justified_append)
      with q threw(6) show ?thesis by simp
    qed
  qed
next
  case (made args i)
  show ?thesis
  proof (rule outcome_invI)
    fix q y assume "q < length (tasks (tick f p w))" and y: "outcome (tasks (tick f p w) ! q) = Some y"
    then have q: "q < length (tasks w)" by simp
    show "justified f (invoked (tick f p w)) q (joined (tasks (tick f p w) ! q)) y"
    proof (cases "q = p")
      case True
      with y made(1) have "y = resolved i" by (simp add: made(5))
      with made(4) have "y = (case f (length (invoked w)) args of Inl err \<Rightarrow> Rejected err | Inr i \<Rightarrow> resolved i)"
        by simp
      from justified_last [of y f "invoked w" args p, OF this] True q made(3,6) show ?thesis by simp
    next
      case False
      with y q have "outcome (tasks w ! q) = Some y" by simp
      from outcome_invD [OF assms q this]
      have "justified f (invoked w @ [(p, args)]) q (joined (tasks w ! q)) y"
        by (rule justified_append)
      with q made(6) show ?thesis by simp
    qed
  qed
qed

lemma outcome_inv_step: "outcome_inv f w \<Longrightarrow> outcome_inv f (step c f w e)"
  by (cases e) (simp_all add: outcome_inv_create outcome_inv_settle outcome_inv_tick)

lemma outcome_inv_run: "outcome_inv f w \<Longrightarrow> outcome_inv f (run c f w es)"
  by (induction es arbitrary: w) (simp_all add: outcome_inv_step)

subsection \<open>The join and the store\<close>

lemma value_of_mono:
  "s r = None \<Longrightarrow> value_of s d = Some v \<Longrightarrow> value_of (s(r \<mapsto> x)) d = Some v"
  by (cases d) (auto split: option.splits outcome.splits)

lemma rejection_of_mono:
  "s r = None \<Longrightarrow> rejection_of s d = Some e \<Longrightarrow> rejection_of (s(r \<mapsto> x)) d = Some e"
  by (cases d) (auto split: option.splits outcome.splits)

lemma all_values_mono:
  "s r = None \<Longrightarrow> all_values s ds = Some vs \<Longrightarrow> all_values (s(r \<mapsto> x)) ds = Some vs"
proof (induction ds arbitrary: vs)
  case Nil
  then show ?case by simp
next
  case (Cons d ds)
  from Cons.prems(2) obtain v vs' where v: "value_of s d = Some v"
    and vs': "all_values s ds = Some vs'" and vs: "vs = v # vs'"
    by (auto split: option.splits)
  have "value_of (s(r \<mapsto> x)) d = Some v" using Cons.prems(1) v by (rule value_of_mono)
  moreover have "all_values (s(r \<mapsto> x)) ds = Some vs'" using Cons.prems(1) vs' by (rule Cons.IH)
  ultimately show ?case unfolding vs by (simp only: all_values.simps option.case)
qed

lemma all_values_nth:
  "all_values s ds = Some vs \<Longrightarrow>
   length vs = length ds \<and> (\<forall>i < length ds. value_of s (ds ! i) = Some (vs ! i))"
proof (induction ds arbitrary: vs)
  case Nil
  then show ?case by simp
next
  case (Cons d ds)
  from Cons.prems obtain v vs' where v: "value_of s d = Some v"
    and vs': "all_values s ds = Some vs'" and vs: "vs = v # vs'"
    by (auto split: option.splits)
  from Cons.IH [OF vs'] v vs show ?case
    by (auto simp: nth_Cons split: nat.split)
qed

lemma value_of_other:
  "d \<noteq> Promised r \<Longrightarrow> value_of (s(r \<mapsto> x)) d = value_of s d"
  by (cases d) simp_all

lemma all_values_other:
  "Promised r \<notin> set ds \<Longrightarrow> all_values (s(r \<mapsto> x)) ds = all_values s ds"
proof (induction ds)
  case Nil
  then show ?case by simp
next
  case (Cons d ds)
  then have d: "d \<noteq> Promised r" and ds: "Promised r \<notin> set ds" by auto
  from d have "value_of (s(r \<mapsto> x)) d = value_of s d" by (rule value_of_other)
  moreover from ds have "all_values (s(r \<mapsto> x)) ds = all_values s ds" by (rule Cons.IH)
  ultimately show ?case by (simp only: all_values.simps)
qed

lemma all_values_no_rejection: "all_values s ds = Some vs \<Longrightarrow> first_rejection s ds = None"
proof (induction ds arbitrary: vs)
  case Nil
  then show ?case by simp
next
  case (Cons d ds)
  from Cons.prems obtain v vs' where v: "value_of s d = Some v"
    and vs': "all_values s ds = Some vs'"
    by (auto split: option.splits)
  from v have "rejection_of s d = None" by (cases d) (auto split: option.splits outcome.splits)
  with Cons.IH [OF vs'] show ?case by simp
qed


lemma promise_all_pending:
  "promise_all s ds = JPending \<Longrightarrow> all_values s ds = None \<and> first_rejection s ds = None"
  by (auto simp: promise_all_def split: option.splits)

lemma rejection_of_other:
  "d \<noteq> Promised r \<Longrightarrow> rejection_of (s(r \<mapsto> x)) d = rejection_of s d"
  by (cases d) simp_all

lemma rejection_of_fulfilled:
  "rejection_of s d = None \<Longrightarrow> rejection_of (s(r \<mapsto> Fulfilled v)) d = None"
  by (cases d) (auto split: option.splits outcome.splits)

lemma first_rejection_None_iff:
  "first_rejection s ds = None \<longleftrightarrow> (\<forall>d \<in> set ds. rejection_of s d = None)"
  by (induction ds) (auto split: option.splits)

lemma first_rejection_other:
  assumes "Promised r \<notin> set ds" and "first_rejection s ds = None"
  shows "first_rejection (s(r \<mapsto> x)) ds = None"
proof -
  have "rejection_of (s(r \<mapsto> x)) d = None" if "d \<in> set ds" for d
  proof -
    from that assms(1) have "d \<noteq> Promised r" by auto
    then have "rejection_of (s(r \<mapsto> x)) d = rejection_of s d" by (rule rejection_of_other)
    with assms(2) that show ?thesis by (simp only: first_rejection_None_iff)
  qed
  then show ?thesis by (simp only: first_rejection_None_iff) blast
qed

lemma first_rejection_fulfilled:
  assumes "first_rejection s ds = None"
  shows "first_rejection (s(r \<mapsto> Fulfilled v)) ds = None"
proof -
  have "rejection_of (s(r \<mapsto> Fulfilled v)) d = None" if "d \<in> set ds" for d
  proof -
    from assms that have "rejection_of s d = None" by (simp only: first_rejection_None_iff)
    then show ?thesis by (rule rejection_of_fulfilled)
  qed
  then show ?thesis by (simp only: first_rejection_None_iff) blast
qed

lemma first_rejection_member:
  "first_rejection s ds = Some e \<Longrightarrow> \<exists>d \<in> set ds. rejection_of s d = Some e"
  by (induction ds) (auto split: option.splits)

lemma promise_all_fulfilled: "promise_all s ds = JFulfilled vs \<Longrightarrow> all_values s ds = Some vs"
  by (auto simp: promise_all_def split: option.splits)

lemma promise_all_rejected:
  "promise_all s ds = JRejected e \<Longrightarrow> \<exists>d \<in> set ds. rejection_of s d = Some e"
  by (auto simp: promise_all_def split: option.splits dest: first_rejection_member)

lemma values_invD1:
  "values_inv w \<Longrightarrow> p < length (tasks w) \<Longrightarrow> joined (tasks w ! p) = JFulfilled args \<Longrightarrow>
   all_values (settled w) (waits (tasks w ! p)) = Some args"
  unfolding values_inv_def by blast

lemma values_invD2:
  "values_inv w \<Longrightarrow> p < length (tasks w) \<Longrightarrow> joined (tasks w ! p) = JRejected e \<Longrightarrow>
   \<exists>d \<in> set (waits (tasks w ! p)). rejection_of (settled w) d = Some e"
  unfolding values_inv_def by blast

lemma values_invD3:
  "values_inv w \<Longrightarrow> p < length (tasks w) \<Longrightarrow> joined (tasks w ! p) = JPending \<Longrightarrow>
   all_values (settled w) (waits (tasks w ! p)) = None"
  unfolding values_inv_def by blast

lemma values_invD4:
  "values_inv w \<Longrightarrow> p < length (tasks w) \<Longrightarrow> joined (tasks w ! p) = JPending \<Longrightarrow>
   first_rejection (settled w) (waits (tasks w ! p)) = None"
  unfolding values_inv_def by blast

lemma values_invI:
  "(\<And>p args. p < length (tasks w) \<Longrightarrow> joined (tasks w ! p) = JFulfilled args \<Longrightarrow>
      all_values (settled w) (waits (tasks w ! p)) = Some args) \<Longrightarrow>
   (\<And>p e. p < length (tasks w) \<Longrightarrow> joined (tasks w ! p) = JRejected e \<Longrightarrow>
      \<exists>d \<in> set (waits (tasks w ! p)). rejection_of (settled w) d = Some e) \<Longrightarrow>
   (\<And>p. p < length (tasks w) \<Longrightarrow> joined (tasks w ! p) = JPending \<Longrightarrow>
      all_values (settled w) (waits (tasks w ! p)) = None \<and>
      first_rejection (settled w) (waits (tasks w ! p)) = None) \<Longrightarrow>
   values_inv w"
  unfolding values_inv_def by blast

lemma values_inv_init: "values_inv (init deps sing)"
  by (rule values_invI) (simp_all add: init_def)

lemma values_inv_tick: assumes "values_inv w" shows "values_inv (tick f p w)"
proof (rule values_invI)
  fix q args assume "q < length (tasks (tick f p w))" "joined (tasks (tick f p w) ! q) = JFulfilled args"
  then have "q < length (tasks w)" "joined (tasks w ! q) = JFulfilled args" by simp_all
  from values_invD1 [OF assms this] \<open>q < length (tasks w)\<close>
  show "all_values (settled (tick f p w)) (waits (tasks (tick f p w) ! q)) = Some args" by simp
next
  fix q e assume "q < length (tasks (tick f p w))" "joined (tasks (tick f p w) ! q) = JRejected e"
  then have "q < length (tasks w)" "joined (tasks w ! q) = JRejected e" by simp_all
  from values_invD2 [OF assms this] \<open>q < length (tasks w)\<close>
  show "\<exists>d \<in> set (waits (tasks (tick f p w) ! q)). rejection_of (settled (tick f p w)) d = Some e"
    by simp
next
  fix q assume "q < length (tasks (tick f p w))" "joined (tasks (tick f p w) ! q) = JPending"
  then have "q < length (tasks w)" "joined (tasks w ! q) = JPending" by simp_all
  from values_invD3 [OF assms this] values_invD4 [OF assms this] \<open>q < length (tasks w)\<close>
  show "all_values (settled (tick f p w)) (waits (tasks (tick f p w) ! q)) = None \<and>
        first_rejection (settled (tick f p w)) (waits (tasks (tick f p w) ! q)) = None" by simp
qed

lemma values_inv_create: assumes "values_inv w" shows "values_inv (snd (create c w))"
proof (cases "truthy_slot (this_instance w)")
  case True
  with assms show ?thesis by (simp add: create_hit)
next
  case False
  note m = create_miss [OF False, of c]
  let ?ds = "fan_out c (length (requested w)) (this_dependencies w)"
  have new: "tasks (snd (create c w)) ! length (tasks w) =
      \<lparr> waits = ?ds, joined = promise_all (settled w) ?ds, outcome = None \<rparr>"
    using m by simp
  have len: "length (tasks (snd (create c w))) = Suc (length (tasks w))" using m by simp
  show ?thesis
  proof (rule values_invI)
    fix q args assume q: "q < length (tasks (snd (create c w)))"
      and j: "joined (tasks (snd (create c w)) ! q) = JFulfilled args"
    show "all_values (settled (snd (create c w))) (waits (tasks (snd (create c w)) ! q)) = Some args"
    proof (cases "q < length (tasks w)")
      case True
      with j have "joined (tasks w ! q) = JFulfilled args" by simp
      from values_invD1 [OF assms True this] True show ?thesis by simp
    next
      case False
      with q len have "q = length (tasks w)" by simp
      with j new show ?thesis by (simp add: promise_all_fulfilled)
    qed
  next
    fix q e assume q: "q < length (tasks (snd (create c w)))"
      and j: "joined (tasks (snd (create c w)) ! q) = JRejected e"
    show "\<exists>d \<in> set (waits (tasks (snd (create c w)) ! q)). rejection_of (settled (snd (create c w))) d = Some e"
    proof (cases "q < length (tasks w)")
      case True
      with j have "joined (tasks w ! q) = JRejected e" by simp
      from values_invD2 [OF assms True this] True show ?thesis by simp
    next
      case False
      with q len have "q = length (tasks w)" by simp
      with j new show ?thesis by (simp add: promise_all_rejected)
    qed
  next
    fix q assume q: "q < length (tasks (snd (create c w)))"
      and j: "joined (tasks (snd (create c w)) ! q) = JPending"
    show "all_values (settled (snd (create c w))) (waits (tasks (snd (create c w)) ! q)) = None \<and>
          first_rejection (settled (snd (create c w))) (waits (tasks (snd (create c w)) ! q)) = None"
    proof (cases "q < length (tasks w)")
      case True
      with j have "joined (tasks w ! q) = JPending" by simp
      from values_invD3 [OF assms True this] values_invD4 [OF assms True this] True
      show ?thesis by simp
    next
      case False
      with q len have "q = length (tasks w)" by simp
      with j new show ?thesis by (simp add: promise_all_pending)
    qed
  qed
qed

lemma react_cases [case_names kept rejected fulfilled]:
  obtains "joined (react r x s tk) = joined tk"
  | e where "joined tk = JPending" "Promised r \<in> set (waits tk)" "x = Rejected e"
      "joined (react r x s tk) = JRejected e"
  | v vs where "joined tk = JPending" "Promised r \<in> set (waits tk)" "x = Fulfilled v"
      "all_values s (waits tk) = Some vs" "joined (react r x s tk) = JFulfilled vs"
proof (cases "joined tk = JPending \<and> Promised r \<in> set (waits tk)")
  case False
  then have "joined (react r x s tk) = joined tk" by (auto simp: react_def)
  then show ?thesis by (rule that(1))
next
  case True
  show ?thesis
  proof (cases x)
    case (Rejected e)
    with True show ?thesis by (intro that(2) [of e]) (simp_all add: react_def)
  next
    case (Fulfilled v)
    show ?thesis
    proof (cases "all_values s (waits tk)")
      case None
      with True Fulfilled have "joined (react r x s tk) = joined tk" by (simp add: react_def)
      then show ?thesis by (rule that(1))
    next
      case (Some vs)
      with True Fulfilled show ?thesis by (intro that(3) [of v vs]) (simp_all add: react_def)
    qed
  next
    case (Follows t)
    with True have "joined (react r x s tk) = joined tk" by (simp add: react_def)
    then show ?thesis by (rule that(1))
  qed
qed

lemma value_of_follows:
  "s r = None \<Longrightarrow> value_of (s(r \<mapsto> Follows t)) d = value_of s d"
  by (cases d) simp_all

lemma rejection_of_follows:
  "s r = None \<Longrightarrow> rejection_of (s(r \<mapsto> Follows t)) d = rejection_of s d"
  by (cases d) simp_all

lemma all_values_follows:
  assumes "s r = None"
  shows "all_values (s(r \<mapsto> Follows t)) ds = all_values s ds"
proof (induction ds)
  case Nil
  show ?case by simp
next
  case (Cons d ds)
  from assms have "value_of (s(r \<mapsto> Follows t)) d = value_of s d" by (rule value_of_follows)
  with Cons.IH show ?case by (simp only: all_values.simps)
qed

lemma first_rejection_follows:
  assumes "s r = None"
  shows "first_rejection (s(r \<mapsto> Follows t)) ds = first_rejection s ds"
proof (induction ds)
  case Nil
  show ?case by simp
next
  case (Cons d ds)
  from assms have "rejection_of (s(r \<mapsto> Follows t)) d = rejection_of s d"
    by (rule rejection_of_follows)
  with Cons.IH show ?case by (simp only: first_rejection.simps)
qed

lemma values_inv_settle: assumes "values_inv w" shows "values_inv (settle r x w)"
proof (cases "settled w r")
  case (Some y)
  then have "settle r x w = w" by (simp add: settle_def)
  with assms show ?thesis by simp
next
  case None
  let ?s = "(settled w)(r \<mapsto> x)"
  from None have s': "settled (settle r x w) = ?s" by (simp add: settle_settled)
  have j': "joined (tasks (settle r x w) ! q) = joined (react r x ?s (tasks w ! q))"
    if "q < length (tasks w)" for q
    using that None by (simp add: settle_joined)
  show ?thesis
  proof (rule values_invI)
    fix q args assume "q < length (tasks (settle r x w))"
      and j: "joined (tasks (settle r x w) ! q) = JFulfilled args"
    then have q: "q < length (tasks w)" by simp
    have "all_values ?s (waits (tasks w ! q)) = Some args"
    proof (cases rule: react_cases [of r x ?s "tasks w ! q"])
      case kept
      with j j' [OF q] have "joined (tasks w ! q) = JFulfilled args" by simp
      from values_invD1 [OF assms q this]
      have "all_values (settled w) (waits (tasks w ! q)) = Some args" .
      with None show ?thesis by (rule all_values_mono)
    next
      case (rejected e)
      with j j' [OF q] show ?thesis by simp
    next
      case (fulfilled v vs)
      with j j' [OF q] show ?thesis by simp
    qed
    with q s' show "all_values (settled (settle r x w)) (waits (tasks (settle r x w) ! q)) = Some args"
      by simp
  next
    fix q e assume "q < length (tasks (settle r x w))"
      and j: "joined (tasks (settle r x w) ! q) = JRejected e"
    then have q: "q < length (tasks w)" by simp
    have "\<exists>d \<in> set (waits (tasks w ! q)). rejection_of ?s d = Some e"
    proof (cases rule: react_cases [of r x ?s "tasks w ! q"])
      case kept
      with j j' [OF q] have "joined (tasks w ! q) = JRejected e" by simp
      from values_invD2 [OF assms q this] obtain d where "d \<in> set (waits (tasks w ! q))"
        "rejection_of (settled w) d = Some e" by blast
      with rejection_of_mono [of "settled w" r d e x] None show ?thesis by blast
    next
      case (rejected e')
      with j j' [OF q] have "e' = e" by simp
      with rejected have "Promised r \<in> set (waits (tasks w ! q))" "rejection_of ?s (Promised r) = Some e"
        by simp_all
      then show ?thesis by blast
    next
      case (fulfilled v vs)
      with j j' [OF q] show ?thesis by simp
    qed
    with q s' show "\<exists>d \<in> set (waits (tasks (settle r x w) ! q)). rejection_of (settled (settle r x w)) d = Some e"
      by simp
  next
    fix q assume "q < length (tasks (settle r x w))"
      and j: "joined (tasks (settle r x w) ! q) = JPending"
    then have q: "q < length (tasks w)" by simp
    have was: "joined (tasks w ! q) = JPending"
    proof (cases rule: react_cases [of r x ?s "tasks w ! q"])
      case kept
      with j j' [OF q] show ?thesis by simp
    next
      case (rejected e)
      then show ?thesis by simp
    next
      case (fulfilled v vs)
      then show ?thesis by simp
    qed
    note fr = values_invD4 [OF assms q was]
    have "all_values ?s (waits (tasks w ! q)) = None \<and>
          first_rejection ?s (waits (tasks w ! q)) = None"
    proof (cases "Promised r \<in> set (waits (tasks w ! q))")
      case False
      then have "all_values ?s (waits (tasks w ! q)) = all_values (settled w) (waits (tasks w ! q))"
        by (rule all_values_other)
      with values_invD3 [OF assms q was] first_rejection_other [OF False fr]
      show ?thesis by simp
    next
      case True
      show ?thesis
      proof (cases x)
        case (Rejected e)
        with True was have "joined (react r x ?s (tasks w ! q)) = JRejected e"
          by (simp add: react_def)
        with j j' [OF q] show ?thesis by simp
      next
        case (Fulfilled v)
        show ?thesis
        proof (cases "all_values ?s (waits (tasks w ! q))")
          case None
          with first_rejection_fulfilled [OF fr, of r v] Fulfilled show ?thesis by simp
        next
          case (Some vs)
          with True was Fulfilled have "joined (react r x ?s (tasks w ! q)) = JFulfilled vs"
            by (simp add: react_def)
          with j j' [OF q] show ?thesis by simp
        qed
      next
        case (Follows t)
        from None have "all_values ((settled w)(r \<mapsto> Follows t)) (waits (tasks w ! q)) =
            all_values (settled w) (waits (tasks w ! q))"
          by (rule all_values_follows)
        moreover from None
        have "first_rejection ((settled w)(r \<mapsto> Follows t)) (waits (tasks w ! q)) =
            first_rejection (settled w) (waits (tasks w ! q))"
          by (rule first_rejection_follows)
        ultimately show ?thesis
          using values_invD3 [OF assms q was] fr Follows by simp
      qed
    qed
    with q s' show "all_values (settled (settle r x w)) (waits (tasks (settle r x w) ! q)) = None \<and>
        first_rejection (settled (settle r x w)) (waits (tasks (settle r x w) ! q)) = None"
      by simp
  qed
qed

lemma values_inv_step: "values_inv w \<Longrightarrow> values_inv (step c f w e)"
  by (cases e) (simp_all add: values_inv_create values_inv_settle values_inv_tick)

lemma values_inv_run: "values_inv w \<Longrightarrow> values_inv (run c f w es)"
  by (induction es arbitrary: w) (simp_all add: values_inv_step)

subsection \<open>The requests of a call\<close>

lemma waits_invD:
  "waits_inv c w \<Longrightarrow> p < length (tasks w) \<Longrightarrow>
   waits (tasks w ! p) = fan_out c (p * length (this_dependencies w)) (this_dependencies w)"
  unfolding waits_inv_def by blast

lemma waits_inv_requested:
  "waits_inv c w \<Longrightarrow> length (requested w) = length (tasks w) * length (this_dependencies w)"
  unfolding waits_inv_def by blast

lemma waits_invI:
  "length (requested w) = length (tasks w) * length (this_dependencies w) \<Longrightarrow>
   (\<And>p. p < length (tasks w) \<Longrightarrow>
      waits (tasks w ! p) = fan_out c (p * length (this_dependencies w)) (this_dependencies w)) \<Longrightarrow>
   waits_inv c w"
  unfolding waits_inv_def by blast

lemma waits_inv_init: "waits_inv c (init deps sing)"
  by (rule waits_invI) (simp_all add: init_def)

lemma waits_inv_settle: assumes "waits_inv c w" shows "waits_inv c (settle r x w)"
proof (rule waits_invI)
  from waits_inv_requested [OF assms]
  show "length (requested (settle r x w)) = length (tasks (settle r x w)) * length (this_dependencies (settle r x w))"
    by simp
next
  fix p assume "p < length (tasks (settle r x w))"
  then have p: "p < length (tasks w)" by simp
  from waits_invD [OF assms p] p
  show "waits (tasks (settle r x w) ! p) =
    fan_out c (p * length (this_dependencies (settle r x w))) (this_dependencies (settle r x w))"
    by simp
qed

lemma waits_inv_tick: assumes "waits_inv c w" shows "waits_inv c (tick f p w)"
proof (rule waits_invI)
  from waits_inv_requested [OF assms]
  show "length (requested (tick f p w)) = length (tasks (tick f p w)) * length (this_dependencies (tick f p w))"
    by simp
next
  fix q assume "q < length (tasks (tick f p w))"
  then have q: "q < length (tasks w)" by simp
  from waits_invD [OF assms q] q
  show "waits (tasks (tick f p w) ! q) =
    fan_out c (q * length (this_dependencies (tick f p w))) (this_dependencies (tick f p w))"
    by simp
qed

lemma waits_inv_create: assumes "waits_inv c w" shows "waits_inv c (snd (create c w))"
proof (cases "truthy_slot (this_instance w)")
  case True
  with assms show ?thesis by (simp add: create_hit)
next
  case False
  note m = create_miss [OF False, of c]
  note r = waits_inv_requested [OF assms]
  have len: "length (tasks (snd (create c w))) = Suc (length (tasks w))" using m by simp
  show ?thesis
  proof (rule waits_invI)
    from m r show "length (requested (snd (create c w))) =
      length (tasks (snd (create c w))) * length (this_dependencies (snd (create c w)))"
      by simp
  next
    fix p assume p: "p < length (tasks (snd (create c w)))"
    show "waits (tasks (snd (create c w)) ! p) =
      fan_out c (p * length (this_dependencies (snd (create c w)))) (this_dependencies (snd (create c w)))"
    proof (cases "p < length (tasks w)")
      case True
      from waits_invD [OF assms True] True show ?thesis by simp
    next
      case False
      with p len have "p = length (tasks w)" by simp
      with m r show ?thesis by simp
    qed
  qed
qed

lemma waits_inv_step: "waits_inv c w \<Longrightarrow> waits_inv c (step c f w e)"
  by (cases e) (simp_all add: waits_inv_create waits_inv_settle waits_inv_tick)

lemma waits_inv_run: "waits_inv c w \<Longrightarrow> waits_inv c (run c f w es)"
  by (induction es arbitrary: w) (simp_all add: waits_inv_step)

lemma fan_out_length [simp]: "length (fan_out c k ds) = length ds"
  by (induction ds arbitrary: k) simp_all

lemma fan_out_nth: "i < length ds \<Longrightarrow> fan_out c k ds ! i = c (k + i) (ds ! i)"
proof (induction ds arbitrary: k i)
  case Nil
  then show ?case by simp
next
  case (Cons d ds)
  then show ?case by (cases i) simp_all
qed

subsection \<open>Reachable states\<close>

lemma reach_cache: "cache_inv (run c f (init deps sing) es)"
  by (simp add: cache_inv_run cache_inv_init)

lemma reach_log: "log_inv (run c f (init deps sing) es)"
  by (simp add: log_inv_run log_inv_init)

lemma reach_outcome: "outcome_inv f (run c f (init deps sing) es)"
  by (simp add: outcome_inv_run outcome_inv_init)

lemma reach_values: "values_inv (run c f (init deps sing) es)"
  by (simp add: values_inv_run values_inv_init)

lemma reach_waits: "waits_inv c (run c f (init deps sing) es)"
  by (simp add: waits_inv_run waits_inv_init)

lemma init_fields [simp]:
  "this_dependencies (init deps sing) = deps"
  "this_singleton (init deps sing) = sing"
  by (simp_all add: init_def)

subsection \<open>What never changes once it is there\<close>

lemma step_length: "p < length (tasks w) \<Longrightarrow> p < length (tasks (step c f w e))"
proof (cases e)
  case Create
  assume "p < length (tasks w)"
  with create_length [of w c] Create show ?thesis by simp
qed simp_all

lemma step_joined_keep:
  assumes "p < length (tasks w)" "joined (tasks w ! p) \<noteq> JPending"
  shows "joined (tasks (step c f w e) ! p) = joined (tasks w ! p)"
  using assms by (cases e) (simp_all add: settle_joined_keep)

lemma step_outcome_keep:
  assumes "p < length (tasks w)" "outcome (tasks w ! p) = Some x"
  shows "outcome (tasks (step c f w e) ! p) = Some x"
proof (cases e)
  case Create
  with assms show ?thesis by simp
next
  case (Settle r y)
  with assms show ?thesis by simp
next
  case (Tick q)
  show ?thesis
  proof (cases "q = p")
    case True
    with assms have "tick f q w = w" by (intro tick_disabled) simp
    with Tick assms show ?thesis by simp
  next
    case False
    with Tick assms show ?thesis by simp
  qed
qed

lemma run_length: "p < length (tasks w) \<Longrightarrow> p < length (tasks (run c f w es))"
  by (induction es arbitrary: w) (simp_all add: step_length)

lemma run_joined_keep:
  "p < length (tasks w) \<Longrightarrow> joined (tasks w ! p) \<noteq> JPending \<Longrightarrow>
   joined (tasks (run c f w es) ! p) = joined (tasks w ! p)"
proof (induction es arbitrary: w)
  case Nil
  then show ?case by simp
next
  case (Cons e es)
  from Cons.prems have "joined (tasks (step c f w e) ! p) = joined (tasks w ! p)"
    by (rule step_joined_keep)
  moreover from Cons.prems(1) have "p < length (tasks (step c f w e))" by (rule step_length)
  ultimately show ?case using Cons.IH [of "step c f w e"] Cons.prems(2) by simp
qed

lemma run_outcome_keep:
  "p < length (tasks w) \<Longrightarrow> outcome (tasks w ! p) = Some x \<Longrightarrow>
   outcome (tasks (run c f w es) ! p) = Some x"
proof (induction es arbitrary: w)
  case Nil
  then show ?case by simp
next
  case (Cons e es)
  from Cons.prems have "outcome (tasks (step c f w e) ! p) = Some x"
    by (rule step_outcome_keep)
  moreover from Cons.prems(1) have "p < length (tasks (step c f w e))" by (rule step_length)
  ultimately show ?case using Cons.IH [of "step c f w e"] by simp
qed

lemma pending_join_has_no_outcome:
  assumes "outcome_inv f w" "p < length (tasks w)" "joined (tasks w ! p) = JPending"
  shows "outcome (tasks w ! p) = None"
proof (cases "outcome (tasks w ! p)")
  case (Some x)
  from outcome_invD [OF assms(1,2) Some] assms(3) show ?thesis by simp
qed simp

lemma settle_rejects_join:
  assumes "p < length (tasks w)" "joined (tasks w ! p) = JPending"
    "Promised r \<in> set (waits (tasks w ! p))" "settled w r = None"
  shows "joined (tasks (settle r (Rejected e) w) ! p) = JRejected e"
  using assms by (simp add: settle_joined react_def)

lemma tick_invokes:
  assumes "values_inv w" "p < length (tasks w)" "outcome (tasks w ! p) = None"
    "all_values (settled w) (waits (tasks w ! p)) = Some vs"
  shows "invoked (tick f p w) = invoked w @ [(p, vs)]"
proof (cases "joined (tasks w ! p)")
  case JPending
  from values_invD3 [OF assms(1,2) this] assms(4) show ?thesis by simp
next
  case (JRejected e)
  from values_invD2 [OF assms(1,2) this] obtain d
    where d: "d \<in> set (waits (tasks w ! p))" "rejection_of (settled w) d = Some e" by blast
  from all_values_no_rejection [OF assms(4)]
  have "first_rejection (settled w) (waits (tasks w ! p)) = None" .
  moreover have "first_rejection s ds \<noteq> None" if "d \<in> set ds" "rejection_of s d = Some e" for s ds
    using that by (induction ds) (auto split: option.splits)
  ultimately show ?thesis using d by blast
next
  case (JFulfilled args)
  from values_invD1 [OF assms(1,2) this] assms(4) have "args = vs" by simp
  with JFulfilled assms(2,3)
  have "tick f p w = conclude p (fst (on_joined f p vs w)) (snd (on_joined f p vs w))"
    by (simp add: tick_fulfilled split: prod.split)
  then show ?thesis by simp
qed

lemma tick_applies_factory:
  assumes "values_inv w" "p < length (tasks w)" "outcome (tasks w ! p) = None"
    "all_values (settled w) (waits (tasks w ! p)) = Some vs"
  shows "invoked (tick f p w) = invoked w @ [(p, vs)] \<and>
         (case f (length (invoked w)) vs of
            Inl err \<Rightarrow> outcome (tasks (tick f p w) ! p) = Some (Rejected err) \<and>
                       emitted (tick f p w) = emitted w
          | Inr i \<Rightarrow> outcome (tasks (tick f p w) ! p) = Some (resolved i) \<and>
                     emitted (tick f p w) = emitted w @ [i])"
proof -
  have j: "joined (tasks w ! p) = JFulfilled vs"
  proof (cases "joined (tasks w ! p)")
    case JPending
    from values_invD3 [OF assms(1,2) this] assms(4) show ?thesis by simp
  next
    case (JRejected e)
    from values_invD2 [OF assms(1,2) this] obtain d
      where d: "d \<in> set (waits (tasks w ! p))" "rejection_of (settled w) d = Some e" by blast
    from all_values_no_rejection [OF assms(4)]
    have "\<forall>d \<in> set (waits (tasks w ! p)). rejection_of (settled w) d = None"
      by (simp only: first_rejection_None_iff)
    with d show ?thesis by auto
  next
    case (JFulfilled args)
    from values_invD1 [OF assms(1,2) this] assms(4) have "args = vs" by simp
    with JFulfilled show ?thesis by simp
  qed
  with assms(2,3)
  have t: "tick f p w = conclude p (fst (on_joined f p vs w)) (snd (on_joined f p vs w))"
    by (simp add: tick_fulfilled split: prod.split)
  have i: "invoked (tick f p w) = invoked w @ [(p, vs)]" unfolding t by simp
  show ?thesis
  proof (cases "f (length (invoked w)) vs")
    case (Inl err)
    then have "fst (on_joined f p vs w) = Rejected err"
      "emitted (snd (on_joined f p vs w)) = emitted w"
      by (simp_all add: on_joined_def Let_def)
    with assms(2) have "outcome (tasks (tick f p w) ! p) = Some (Rejected err)"
      "emitted (tick f p w) = emitted w"
      unfolding t by (simp_all add: conclude_outcome)
    with i Inl show ?thesis by simp
  next
    case (Inr v)
    then have "fst (on_joined f p vs w) = resolved v"
      "emitted (snd (on_joined f p vs w)) = emitted w @ [v]"
      by (simp_all add: on_joined_def Let_def)
    with assms(2) have "outcome (tasks (tick f p w) ! p) = Some (resolved v)"
      "emitted (tick f p w) = emitted w @ [v]"
      unfolding t by (simp_all add: conclude_outcome)
    with i Inr show ?thesis by simp
  qed
qed


lemma made_by_factory:
  assumes "outcome_inv f w" "p < length (tasks w)" "outcome (tasks w ! p) = Some x"
    and nr: "\<forall>e. x \<noteq> Rejected e"
  shows "\<exists>k args i. k < length (invoked w) \<and> invoked w ! k = (p, args) \<and> f k args = Inr i \<and>
           x = resolved i \<and> joined (tasks w ! p) = JFulfilled args"
proof -
  from outcome_invD [OF assms(1,2,3)]
  have j: "justified f (invoked w) p (joined (tasks w ! p)) x" .
  show ?thesis
  proof (cases "joined (tasks w ! p)")
    case JPending
    with j show ?thesis by simp
  next
    case (JRejected e)
    with j nr show ?thesis by simp
  next
    case (JFulfilled args)
    with j obtain k where k: "k < length (invoked w)" "invoked w ! k = (p, args)"
      and x: "x = (case f k args of Inl err \<Rightarrow> Rejected err | Inr i \<Rightarrow> resolved i)"
      by auto
    show ?thesis
    proof (cases "f k args")
      case (Inl err)
      with x nr show ?thesis by simp
    next
      case (Inr i)
      with x have "x = resolved i" by simp
      with k Inr JFulfilled show ?thesis by blast
    qed
  qed
qed

subsection \<open>What is cached and what has settled\<close>










section \<open>The claims about the resolution\<close>

lemmas evaluate =
  run_def init_def create_def tick_def settle_def react_def conclude_def on_joined_def
  promise_all_def resolved_def Let_def

subsection \<open>A singleton in flight\<close>

text \<open>
  While the promise of a singleton's call is pending, every further call of \<^verbatim>\<open>create\<close>
  returns that same promise and changes nothing: no request to the container, no new
  continuation.
\<close>

lemma singleton_shares_pending_future:
  assumes "truthy sing" and w: "w = run c f (init deps sing) es"
    and "p < length (tasks w)" and "outcome (tasks w ! p) = None"
  shows "create c w = (Future p, w)"
proof -
  have "cache_inv w" unfolding w by (rule reach_cache)
  moreover from assms(1) have "truthy (this_singleton w)" by (simp add: w)
  moreover from assms(4)
  have "outcome (tasks w ! p) = None \<or> (\<exists>e. outcome (tasks w ! p) = Some (Rejected e))" by simp
  ultimately have "this_instance w = Future p" using assms(3) by (intro cache_invD2) simp_all
  then show ?thesis by (simp add: create_hit)
qed

text \<open>
  The factory of a singleton is invoked at most once, and once more for each falsy
  instance it has returned.
\<close>

lemma bounded_create:
  assumes "length (invoked w) \<le> cached_calls w"
  shows "length (invoked (snd (create c w))) \<le> cached_calls (snd (create c w))"
proof (cases "truthy_slot (this_instance w)")
  case True
  with assms show ?thesis by (simp add: create_hit)
next
  case False
  then obtain v where v: "this_instance w = Plain v" "\<not> truthy v"
    by (cases "this_instance w") auto
  note m = create_miss [OF False, of c]
  from m have i: "this_instance (snd (create c w)) =
      (if truthy (this_singleton w) then Future (length (tasks w)) else Plain v)"
    and t: "tasks (snd (create c w)) ! length (tasks w) =
      \<lparr> waits = fan_out c (length (requested w)) (this_dependencies w),
        joined = promise_all (settled w) (fan_out c (length (requested w)) (this_dependencies w)),
        outcome = None \<rparr>"
    by (simp_all add: v)
  from assms v have "length (invoked w) \<le> length (filter (\<lambda>v. \<not> truthy v) (emitted w))"
    by (simp add: cached_calls_def)
  with i t v show ?thesis by (simp add: cached_calls_def)
qed

lemma bounded_settle:
  assumes "cache_inv w" "length (invoked w) \<le> cached_calls w"
  shows "length (invoked (settle r x w)) \<le> cached_calls (settle r x w)"
proof -
  have "cached_calls (settle r x w) = cached_calls w"
  proof (cases "this_instance w")
    case (Future p)
    from cache_invD1 [OF assms(1) this] Future show ?thesis by (simp add: cached_calls_def)
  next
    case (Plain v)
    then show ?thesis by (simp add: cached_calls_def)
  qed
  with assms(2) show ?thesis by simp
qed

lemma bounded_tick:
  assumes ci: "cache_inv w" and s: "truthy (this_singleton w)"
    and b: "length (invoked w) \<le> cached_calls w"
  shows "length (invoked (tick f p w)) \<le> cached_calls (tick f p w)"
proof (cases rule: tick_cases [of f p w])
  case idle
  with b show ?thesis by simp
next
  case (rejected e)
  from rejected(2)
  have "outcome (tasks w ! p) = None \<or> (\<exists>e. outcome (tasks w ! p) = Some (Rejected e))" by simp
  from cache_invD2 [OF ci s rejected(1) this] have i: "this_instance w = Future p" .
  with b rejected(2) have "length (invoked w) \<le> length (filter (\<lambda>v. \<not> truthy v) (emitted w))"
    by (simp add: cached_calls_def)
  with rejected i show ?thesis by (simp add: cached_calls_def)
next
  case (threw args err)
  from threw(2)
  have "outcome (tasks w ! p) = None \<or> (\<exists>e. outcome (tasks w ! p) = Some (Rejected e))" by simp
  from cache_invD2 [OF ci s threw(1) this] have i: "this_instance w = Future p" .
  with b threw(2) have "length (invoked w) \<le> length (filter (\<lambda>v. \<not> truthy v) (emitted w))"
    by (simp add: cached_calls_def)
  with threw i show ?thesis by (simp add: cached_calls_def)
next
  case (made args i)
  from made(2)
  have "outcome (tasks w ! p) = None \<or> (\<exists>e. outcome (tasks w ! p) = Some (Rejected e))" by simp
  from cache_invD2 [OF ci s made(1) this] have c: "this_instance w = Future p" .
  with b made(2) have "length (invoked w) \<le> length (filter (\<lambda>v. \<not> truthy v) (emitted w))"
    by (simp add: cached_calls_def)
  with made s show ?thesis by (simp add: cached_calls_def)
qed

lemma bounded_run:
  assumes s: "truthy sing"
  shows "length (invoked (run c f (init deps sing) es)) \<le> cached_calls (run c f (init deps sing) es)"
proof (induction es rule: rev_induct)
  case Nil
  show ?case by (simp add: init_def cached_calls_def)
next
  case (snoc e es)
  let ?w = "run c f (init deps sing) es"
  have ci: "cache_inv ?w" by (rule reach_cache)
  from s have si: "truthy (this_singleton ?w)" by simp
  show ?case
  proof (cases e)
    case Create
    with bounded_create [OF snoc.IH, of c] show ?thesis by (simp add: run_snoc)
  next
    case (Settle r x)
    with bounded_settle [OF ci snoc.IH, of r x] show ?thesis by (simp add: run_snoc)
  next
    case (Tick p)
    with bounded_tick [OF ci si snoc.IH, of f p] show ?thesis by (simp add: run_snoc)
  qed
qed

lemma singleton_invocations_bounded:
  assumes "truthy sing"
  shows "length (invoked (run c f (init deps sing) es)) \<le>
           Suc (length (filter (\<lambda>v. \<not> truthy v) (emitted (run c f (init deps sing) es))))"
proof -
  let ?w = "run c f (init deps sing) es"
  have "cached_calls ?w \<le> Suc (length (filter (\<lambda>v. \<not> truthy v) (emitted ?w)))"
    by (simp add: cached_calls_def split: slot.split)
  with bounded_run [OF assms, of c f deps es] show ?thesis by simp
qed

text \<open>
  Claim C1: for a singleton, calls of \<^verbatim>\<open>create\<close> made before the first call's promise
  settles get the identical promise, and the factory is invoked at most once per
  specification. The first half holds (\<open>singleton_shares_pending_future\<close>), and so
  does the second while the instances are truthy (\<open>singleton_invocations_bounded\<close>).
  It fails where the factory returns a falsy instance: take a singleton with no
  dependencies whose factory returns 0. The first call returns promise 0; its
  continuation calls the factory and stores 0 in \<^verbatim>\<open>_instance\<close>; the second call finds
  \<^verbatim>\<open>this._instance\<close> falsy at line 73, returns a new promise 1, and its continuation
  calls the factory again.
\<close>

theorem singleton_falsy_instance_invoked_twice:
  "invoked (run (\<lambda>k d. Immediate JNull) (\<lambda>k args. Inr (JNum 0)) (init [] (JBool True))
      [Create, Tick 0, Create, Tick 1]) = [(0, []), (1, [])] \<and>
   fst (create (\<lambda>k d. Immediate JNull)
      (run (\<lambda>k d. Immediate JNull) (\<lambda>k args. Inr (JNum 0)) (init [] (JBool True)) [Create]))
     = Future 0 \<and>
   fst (create (\<lambda>k d. Immediate JNull)
      (run (\<lambda>k d. Immediate JNull) (\<lambda>k args. Inr (JNum 0)) (init [] (JBool True)) [Create, Tick 0]))
     = Future 1"
  by (simp add: evaluate)

subsection \<open>A dependency that rejects\<close>

text \<open>
  Claim C2: when a dependency's promise rejects, the promise of \<^verbatim>\<open>create\<close> rejects with
  the identical reason, without waiting for the other dependencies, and the factory is
  not invoked. In a reachable state, for the call number p of \<^verbatim>\<open>create\<close>:
  a rejection that arrives while the join is pending rejects the join at once with that
  reason, whatever the state of the other dependencies; a join is rejected whenever one of
  its dependencies is; and once the join is rejected with e, e is the reason of a rejected
  dependency, the job of the call rejects its promise with e, the promise never settles
  any other way, and the factory is never invoked for this call.
\<close>

theorem dependency_rejection_fails_fast:
  assumes w: "w = run c f (init deps sing) es"
    and p: "p < length (tasks w)"
  shows "(\<forall>r e. joined (tasks w ! p) = JPending \<and> Promised r \<in> set (waits (tasks w ! p)) \<and>
            settled w r = None \<longrightarrow>
            joined (tasks (settle r (Rejected e) w) ! p) = JRejected e) \<and>
         ((\<exists>d \<in> set (waits (tasks w ! p)). rejection_of (settled w) d \<noteq> None) \<longrightarrow>
            (\<exists>e. joined (tasks w ! p) = JRejected e)) \<and>
         (\<forall>e. joined (tasks w ! p) = JRejected e \<longrightarrow>
            (\<exists>d \<in> set (waits (tasks w ! p)). rejection_of (settled w) d = Some e) \<and>
            outcome (tasks (tick f p w) ! p) = Some (Rejected e) \<and>
            (\<forall>es'. p \<notin> fst ` set (invoked (run c f w es')) \<and>
               (outcome (tasks (run c f w es') ! p) = None \<or>
                outcome (tasks (run c f w es') ! p) = Some (Rejected e))))"
proof (intro conjI allI impI)
  fix r e
  assume "joined (tasks w ! p) = JPending \<and> Promised r \<in> set (waits (tasks w ! p)) \<and>
            settled w r = None"
  with p show "joined (tasks (settle r (Rejected e) w) ! p) = JRejected e"
    by (intro settle_rejects_join) simp_all
next
  assume some: "\<exists>d \<in> set (waits (tasks w ! p)). rejection_of (settled w) d \<noteq> None"
  have vi: "values_inv w" unfolding w by (rule reach_values)
  show "\<exists>e. joined (tasks w ! p) = JRejected e"
  proof (cases "joined (tasks w ! p)")
    case JPending
    from values_invD4 [OF vi p this]
    have "\<forall>d \<in> set (waits (tasks w ! p)). rejection_of (settled w) d = None"
      by (simp only: first_rejection_None_iff)
    with some show ?thesis by auto
  next
    case (JFulfilled args)
    from all_values_no_rejection [OF values_invD1 [OF vi p this]]
    have "\<forall>d \<in> set (waits (tasks w ! p)). rejection_of (settled w) d = None"
      by (simp only: first_rejection_None_iff)
    with some show ?thesis by auto
  next
    case (JRejected e)
    then show ?thesis by blast
  qed
next
  fix e assume j: "joined (tasks w ! p) = JRejected e"
  have vi: "values_inv w" unfolding w by (rule reach_values)
  from values_invD2 [OF vi p j]
  show "\<exists>d \<in> set (waits (tasks w ! p)). rejection_of (settled w) d = Some e" .
  have oi: "outcome_inv f w" unfolding w by (rule reach_outcome)
  show "outcome (tasks (tick f p w) ! p) = Some (Rejected e)"
  proof (cases "outcome (tasks w ! p)")
    case None
    with p j have "tick f p w = conclude p (Rejected e) w" by (intro tick_rejected)
    with p show ?thesis by (simp add: conclude_outcome)
  next
    case (Some x)
    from outcome_invD [OF oi p Some] j have "x = Rejected e" by simp
    moreover from Some have "tick f p w = w" by (intro tick_disabled) simp
    ultimately show ?thesis using Some by simp
  qed
  fix es'
  let ?w' = "run c f w es'"
  have w': "?w' = run c f (init deps sing) (es @ es')" by (simp add: w run_append)
  from p have p': "p < length (tasks ?w')" by (rule run_length)
  from p j have j': "joined (tasks ?w' ! p) = JRejected e" by (simp add: run_joined_keep)
  have li: "log_inv ?w'" unfolding w' by (rule reach_log)
  show "p \<notin> fst ` set (invoked ?w')"
  proof
    assume "p \<in> fst ` set (invoked ?w')"
    then obtain a where "(p, a) \<in> set (invoked ?w')" by auto
    from log_invD [OF li this] j' show False by simp
  qed
  have oi': "outcome_inv f ?w'" unfolding w' by (rule reach_outcome)
  show "outcome (tasks ?w' ! p) = None \<or> outcome (tasks ?w' ! p) = Some (Rejected e)"
  proof (cases "outcome (tasks ?w' ! p)")
    case None
    then show ?thesis by simp
  next
    case (Some x)
    from outcome_invD [OF oi' p' Some] j' have "x = Rejected e" by simp
    with Some show ?thesis by simp
  qed
qed

theorem dependency_rejection_fails_fast_witness:
  "0 < length (tasks (run (\<lambda>k d. Promised k) (\<lambda>k args. Inr (JArr args))
      (init [JStr ''a'', JStr ''b''] JUndefined) [Create])) \<and>
   joined (tasks (run (\<lambda>k d. Promised k) (\<lambda>k args. Inr (JArr args))
      (init [JStr ''a'', JStr ''b''] JUndefined) [Create]) ! 0) = JPending \<and>
   Promised 1 \<in> set (waits (tasks (run (\<lambda>k d. Promised k) (\<lambda>k args. Inr (JArr args))
      (init [JStr ''a'', JStr ''b''] JUndefined) [Create]) ! 0)) \<and>
   settled (run (\<lambda>k d. Promised k) (\<lambda>k args. Inr (JArr args))
      (init [JStr ''a'', JStr ''b''] JUndefined) [Create]) 1 = None \<and>
   joined (tasks (run (\<lambda>k d. Promised k) (\<lambda>k args. Inr (JArr args))
      (init [JStr ''a'', JStr ''b''] JUndefined) [Create, Settle 1 (Rejected (JStr ''down''))]) ! 0)
     = JRejected (JStr ''down'') \<and>
   settled (run (\<lambda>k d. Promised k) (\<lambda>k args. Inr (JArr args))
      (init [JStr ''a'', JStr ''b''] JUndefined) [Create, Settle 1 (Rejected (JStr ''down''))]) 0 = None \<and>
   outcome (tasks (run (\<lambda>k d. Promised k) (\<lambda>k args. Inr (JArr args))
      (init [JStr ''a'', JStr ''b''] JUndefined)
      [Create, Settle 1 (Rejected (JStr ''down'')), Tick 0]) ! 0) = Some (Rejected (JStr ''down'')) \<and>
   invoked (run (\<lambda>k d. Promised k) (\<lambda>k args. Inr (JArr args))
      (init [JStr ''a'', JStr ''b''] JUndefined)
      [Create, Settle 1 (Rejected (JStr ''down'')), Tick 0, Settle 0 (Fulfilled JNull), Tick 0]) = []"
  using dependency_rejection_fails_fast
    [of "run (\<lambda>k d. Promised k) (\<lambda>k args. Inr (JArr args))
           (init [JStr ''a'', JStr ''b''] JUndefined) [Create]"
        "\<lambda>k d. Promised k" "\<lambda>k args. Inr (JArr args)" "[JStr ''a'', JStr ''b'']" JUndefined
        "[Create]" 0]
    dependency_rejection_fails_fast
    [of "run (\<lambda>k d. Promised k) (\<lambda>k args. Inr (JArr args))
           (init [JStr ''a'', JStr ''b''] JUndefined) [Create, Settle 1 (Rejected (JStr ''down''))]"
        "\<lambda>k d. Promised k" "\<lambda>k args. Inr (JArr args)" "[JStr ''a'', JStr ''b'']" JUndefined
        "[Create, Settle 1 (Rejected (JStr ''down''))]" 0]
  by (simp add: evaluate)

subsection \<open>The arguments of the factory\<close>

text \<open>
  Claim C3: the factory gets the resolved values of the dependencies as positional
  arguments in the order of \<^verbatim>\<open>dependencies\<close>, whatever the order in which the promises
  settled. In every run: each call of the factory, made for call number p of \<^verbatim>\<open>create\<close>,
  has one argument per dependency, and argument i is the value of what the container
  returned for dependency i in that call; a promise that is no longer pending on a
  fulfilled join owes it to what the factory did when applied to the joined values; and
  once every dependency of a pending call has its value, the job of the call applies the
  factory to those values, value i being that of what the container returned for
  dependency i: what it throws rejects the promise, what it returns is passed to
  \<^verbatim>\<open>container.emit\<close> and resolves the promise (fulfilled with it, or following it
  where it is a thenable).
\<close>

theorem factory_arguments_in_declared_order:
  assumes w: "w = run c f (init deps sing) es"
  shows "(\<forall>p args. (p, args) \<in> set (invoked w) \<longrightarrow>
            length args = length deps \<and>
            (\<forall>i < length deps.
               waits (tasks w ! p) ! i = c (p * length deps + i) (deps ! i) \<and>
               value_of (settled w) (waits (tasks w ! p) ! i) = Some (args ! i))) \<and>
         (\<forall>p x args. p < length (tasks w) \<and> outcome (tasks w ! p) = Some x \<and>
            joined (tasks w ! p) = JFulfilled args \<longrightarrow>
            (\<exists>k < length (invoked w). invoked w ! k = (p, args) \<and>
               x = (case f k args of Inl err \<Rightarrow> Rejected err | Inr i \<Rightarrow> resolved i))) \<and>
         (\<forall>p vs. p < length (tasks w) \<and> outcome (tasks w ! p) = None \<and>
            all_values (settled w) (waits (tasks w ! p)) = Some vs \<longrightarrow>
            length vs = length deps \<and>
            (\<forall>i < length deps.
               value_of (settled w) (c (p * length deps + i) (deps ! i)) = Some (vs ! i)) \<and>
            invoked (tick f p w) = invoked w @ [(p, vs)] \<and>
            (case f (length (invoked w)) vs of
               Inl err \<Rightarrow> outcome (tasks (tick f p w) ! p) = Some (Rejected err) \<and>
                          emitted (tick f p w) = emitted w
             | Inr i \<Rightarrow> outcome (tasks (tick f p w) ! p) = Some (resolved i) \<and>
                        emitted (tick f p w) = emitted w @ [i]))"
proof -
  have A: "\<forall>p args. (p, args) \<in> set (invoked w) \<longrightarrow>
            length args = length deps \<and>
            (\<forall>i < length deps.
               waits (tasks w ! p) ! i = c (p * length deps + i) (deps ! i) \<and>
               value_of (settled w) (waits (tasks w ! p) ! i) = Some (args ! i))"
  proof (intro conjI allI impI)
  fix p args assume inv: "(p, args) \<in> set (invoked w)"
  have "log_inv w" unfolding w by (rule reach_log)
  from log_invD [OF this inv]
  have p: "p < length (tasks w)" and j: "joined (tasks w ! p) = JFulfilled args" by simp_all
  have "values_inv w" unfolding w by (rule reach_values)
  from values_invD1 [OF this p j]
  have av: "all_values (settled w) (waits (tasks w ! p)) = Some args" .
  have "waits_inv c w" unfolding w by (rule reach_waits)
  from waits_invD [OF this p]
  have ws: "waits (tasks w ! p) = fan_out c (p * length deps) deps" by (simp add: w)
  from all_values_nth [OF av] ws show "length args = length deps" by simp
  fix i assume i: "i < length deps"
  from ws i show "waits (tasks w ! p) ! i = c (p * length deps + i) (deps ! i)"
    by (simp add: fan_out_nth)
  from all_values_nth [OF av] ws i
  show "value_of (settled w) (waits (tasks w ! p) ! i) = Some (args ! i)" by simp
  qed
  have B: "\<forall>p x args. p < length (tasks w) \<and> outcome (tasks w ! p) = Some x \<and>
            joined (tasks w ! p) = JFulfilled args \<longrightarrow>
            (\<exists>k < length (invoked w). invoked w ! k = (p, args) \<and>
               x = (case f k args of Inl err \<Rightarrow> Rejected err | Inr i \<Rightarrow> resolved i))"
  proof (intro allI impI)
  fix p x args
  assume a: "p < length (tasks w) \<and> outcome (tasks w ! p) = Some x \<and>
            joined (tasks w ! p) = JFulfilled args"
  have oi: "outcome_inv f w" unfolding w by (rule reach_outcome)
  from a have p: "p < length (tasks w)" and o: "outcome (tasks w ! p) = Some x" by simp_all
  from outcome_invD [OF oi p o] have "justified f (invoked w) p (joined (tasks w ! p)) x" .
  with a show "\<exists>k < length (invoked w). invoked w ! k = (p, args) \<and>
               x = (case f k args of Inl err \<Rightarrow> Rejected err | Inr i \<Rightarrow> resolved i)"
    by simp
  qed
  have C: "\<forall>p vs. p < length (tasks w) \<and> outcome (tasks w ! p) = None \<and>
            all_values (settled w) (waits (tasks w ! p)) = Some vs \<longrightarrow>
            length vs = length deps \<and>
            (\<forall>i < length deps.
               value_of (settled w) (c (p * length deps + i) (deps ! i)) = Some (vs ! i)) \<and>
            invoked (tick f p w) = invoked w @ [(p, vs)] \<and>
            (case f (length (invoked w)) vs of
               Inl err \<Rightarrow> outcome (tasks (tick f p w) ! p) = Some (Rejected err) \<and>
                          emitted (tick f p w) = emitted w
             | Inr i \<Rightarrow> outcome (tasks (tick f p w) ! p) = Some (resolved i) \<and>
                        emitted (tick f p w) = emitted w @ [i])"
  proof (intro allI impI)
  fix p vs
  assume a: "p < length (tasks w) \<and> outcome (tasks w ! p) = None \<and>
            all_values (settled w) (waits (tasks w ! p)) = Some vs"
  have vi: "values_inv w" unfolding w by (rule reach_values)
  from a have p: "p < length (tasks w)" and o: "outcome (tasks w ! p) = None"
    and av: "all_values (settled w) (waits (tasks w ! p)) = Some vs" by simp_all
  have "waits_inv c w" unfolding w by (rule reach_waits)
  from waits_invD [OF this p]
  have ws: "waits (tasks w ! p) = fan_out c (p * length deps) deps" by (simp add: w)
  from all_values_nth [OF av] ws have len: "length vs = length deps" by simp
  have nth: "value_of (settled w) (c (p * length deps + i) (deps ! i)) = Some (vs ! i)"
    if "i < length deps" for i
    using all_values_nth [OF av] ws that by (simp add: fan_out_nth)
  have app: "invoked (tick f p w) = invoked w @ [(p, vs)] \<and>
            (case f (length (invoked w)) vs of
               Inl err \<Rightarrow> outcome (tasks (tick f p w) ! p) = Some (Rejected err) \<and>
                          emitted (tick f p w) = emitted w
             | Inr i \<Rightarrow> outcome (tasks (tick f p w) ! p) = Some (resolved i) \<and>
                        emitted (tick f p w) = emitted w @ [i])"
    by (rule tick_applies_factory [OF vi p o av])
  from len nth app
  show "length vs = length deps \<and>
            (\<forall>i < length deps.
               value_of (settled w) (c (p * length deps + i) (deps ! i)) = Some (vs ! i)) \<and>
            invoked (tick f p w) = invoked w @ [(p, vs)] \<and>
            (case f (length (invoked w)) vs of
               Inl err \<Rightarrow> outcome (tasks (tick f p w) ! p) = Some (Rejected err) \<and>
                          emitted (tick f p w) = emitted w
             | Inr i \<Rightarrow> outcome (tasks (tick f p w) ! p) = Some (resolved i) \<and>
                        emitted (tick f p w) = emitted w @ [i])"
    by blast
  qed
  show ?thesis by (intro conjI) (rule A, rule B, rule C)
qed

theorem factory_arguments_in_declared_order_witness:
  "0 < length (tasks (run (\<lambda>k d. Promised k) (\<lambda>k args. Inr (JArr args))
      (init [JStr ''a'', JStr ''b''] JUndefined)
      [Create, Settle 1 (Fulfilled (JStr ''B'')), Settle 0 (Fulfilled (JStr ''A''))])) \<and>
   outcome (tasks (run (\<lambda>k d. Promised k) (\<lambda>k args. Inr (JArr args))
      (init [JStr ''a'', JStr ''b''] JUndefined)
      [Create, Settle 1 (Fulfilled (JStr ''B'')), Settle 0 (Fulfilled (JStr ''A''))]) ! 0) = None \<and>
   all_values
     (settled (run (\<lambda>k d. Promised k) (\<lambda>k args. Inr (JArr args))
        (init [JStr ''a'', JStr ''b''] JUndefined)
        [Create, Settle 1 (Fulfilled (JStr ''B'')), Settle 0 (Fulfilled (JStr ''A''))]))
     (waits (tasks (run (\<lambda>k d. Promised k) (\<lambda>k args. Inr (JArr args))
        (init [JStr ''a'', JStr ''b''] JUndefined)
        [Create, Settle 1 (Fulfilled (JStr ''B'')), Settle 0 (Fulfilled (JStr ''A''))]) ! 0))
     = Some [JStr ''A'', JStr ''B''] \<and>
   invoked (run (\<lambda>k d. Promised k) (\<lambda>k args. Inr (JArr args))
      (init [JStr ''a'', JStr ''b''] JUndefined)
      [Create, Settle 1 (Fulfilled (JStr ''B'')), Settle 0 (Fulfilled (JStr ''A'')), Tick 0])
     = [(0, [JStr ''A'', JStr ''B''])] \<and>
   waits (tasks (run (\<lambda>k d. Promised k) (\<lambda>k args. Inr (JArr args))
      (init [JStr ''a'', JStr ''b''] JUndefined)
      [Create, Settle 1 (Fulfilled (JStr ''B'')), Settle 0 (Fulfilled (JStr ''A'')), Tick 0]) ! 0)
     = [Promised 0, Promised 1] \<and>
   joined (tasks (run (\<lambda>k d. Promised k) (\<lambda>k args. Inr (JArr args))
      (init [JStr ''a'', JStr ''b''] JUndefined)
      [Create, Settle 1 (Fulfilled (JStr ''B'')), Settle 0 (Fulfilled (JStr ''A'')), Tick 0]) ! 0)
     = JFulfilled [JStr ''A'', JStr ''B''] \<and>
   outcome (tasks (run (\<lambda>k d. Promised k) (\<lambda>k args. Inr (JArr args))
      (init [JStr ''a'', JStr ''b''] JUndefined)
      [Create, Settle 1 (Fulfilled (JStr ''B'')), Settle 0 (Fulfilled (JStr ''A'')), Tick 0]) ! 0)
     = Some (Fulfilled (JArr [JStr ''A'', JStr ''B''])) \<and>
   emitted (run (\<lambda>k d. Promised k) (\<lambda>k args. Inr (JArr args))
      (init [JStr ''a'', JStr ''b''] JUndefined)
      [Create, Settle 1 (Fulfilled (JStr ''B'')), Settle 0 (Fulfilled (JStr ''A'')), Tick 0])
     = [JArr [JStr ''A'', JStr ''B'']]"
  using factory_arguments_in_declared_order
    [of "run (\<lambda>k d. Promised k) (\<lambda>k args. Inr (JArr args))
           (init [JStr ''a'', JStr ''b''] JUndefined)
           [Create, Settle 1 (Fulfilled (JStr ''B'')), Settle 0 (Fulfilled (JStr ''A''))]"
        "\<lambda>k d. Promised k" "\<lambda>k args. Inr (JArr args)" "[JStr ''a'', JStr ''b'']" JUndefined
        "[Create, Settle 1 (Fulfilled (JStr ''B'')), Settle 0 (Fulfilled (JStr ''A''))]"]
    factory_arguments_in_declared_order
    [of "run (\<lambda>k d. Promised k) (\<lambda>k args. Inr (JArr args))
           (init [JStr ''a'', JStr ''b''] JUndefined)
           [Create, Settle 1 (Fulfilled (JStr ''B'')), Settle 0 (Fulfilled (JStr ''A'')), Tick 0]"
        "\<lambda>k d. Promised k" "\<lambda>k args. Inr (JArr args)" "[JStr ''a'', JStr ''b'']" JUndefined
        "[Create, Settle 1 (Fulfilled (JStr ''B'')), Settle 0 (Fulfilled (JStr ''A'')), Tick 0]"]
  by (simp add: evaluate)

subsection \<open>A singleton that rejected\<close>




subsection \<open>What \<^verbatim>\<open>create\<close> returns\<close>




subsection \<open>A specification that is no singleton\<close>

text \<open>
  Claim C9: a specification that is no singleton never fills \<^verbatim>\<open>_instance\<close>, and each
  call of \<^verbatim>\<open>create\<close> invokes the factory with dependency values resolved for that call
  alone. In every reachable state \<^verbatim>\<open>_instance\<close> is undefined; every call of \<^verbatim>\<open>create\<close>
  returns a new promise and asks the container afresh for each dependency; every
  pending call, once its own dependencies have their values, applies the factory to
  those values, rejects its promise with what the factory throws or resolves it with
  what the factory returns (which is also passed to \<^verbatim>\<open>container.emit\<close>), and still
  leaves \<^verbatim>\<open>_instance\<close> undefined; and every promise that is neither pending nor
  rejected has been resolved with what the factory returned when applied to the values of
  that call's own requests.
\<close>

theorem non_singleton_creates_afresh:
  assumes n: "\<not> truthy sing"
    and w: "w = run c f (init deps sing) es"
  shows "this_instance w = Plain JUndefined \<and>
         fst (create c w) = Future (length (tasks w)) \<and>
         tasks (snd (create c w)) = tasks w @
           [\<lparr> waits = fan_out c (length (tasks w) * length deps) deps,
              joined = promise_all (settled w) (fan_out c (length (tasks w) * length deps) deps),
              outcome = None \<rparr>] \<and>
         requested (snd (create c w)) = requested w @ deps \<and>
         this_instance (snd (create c w)) = Plain JUndefined \<and>
         (\<forall>p vs. p < length (tasks w) \<and> outcome (tasks w ! p) = None \<and>
            all_values (settled w) (waits (tasks w ! p)) = Some vs \<longrightarrow>
            waits (tasks w ! p) = fan_out c (p * length deps) deps \<and>
            invoked (tick f p w) = invoked w @ [(p, vs)] \<and>
            (case f (length (invoked w)) vs of
               Inl err \<Rightarrow> outcome (tasks (tick f p w) ! p) = Some (Rejected err) \<and>
                          emitted (tick f p w) = emitted w
             | Inr i \<Rightarrow> outcome (tasks (tick f p w) ! p) = Some (resolved i) \<and>
                        emitted (tick f p w) = emitted w @ [i]) \<and>
            this_instance (tick f p w) = Plain JUndefined) \<and>
         (\<forall>p x. p < length (tasks w) \<and> outcome (tasks w ! p) = Some x \<and>
            (\<forall>e. x \<noteq> Rejected e) \<longrightarrow>
            (\<exists>k args i. k < length (invoked w) \<and> invoked w ! k = (p, args) \<and>
               f k args = Inr i \<and> x = resolved i \<and>
               waits (tasks w ! p) = fan_out c (p * length deps) deps \<and>
               all_values (settled w) (waits (tasks w ! p)) = Some args))"
proof -
  have ci: "cache_inv w" unfolding w by (rule reach_cache)
  have vi: "values_inv w" unfolding w by (rule reach_values)
  from n have ns: "\<not> truthy (this_singleton w)" by (simp add: w)
  from cache_invD3 [OF ci ns] have i: "this_instance w = Plain JUndefined" .
  then have miss: "\<not> truthy_slot (this_instance w)" by simp
  have wi: "waits_inv c w" unfolding w by (rule reach_waits)
  from waits_inv_requested [OF wi] have rq: "length (requested w) = length (tasks w) * length deps"
    by (simp add: w)
  have d: "this_dependencies w = deps" by (simp add: w)
  note m = create_miss [OF miss, of c]
  have later: "waits (tasks w ! p) = fan_out c (p * length deps) deps \<and>
      invoked (tick f p w) = invoked w @ [(p, vs)] \<and>
      (case f (length (invoked w)) vs of
         Inl err \<Rightarrow> outcome (tasks (tick f p w) ! p) = Some (Rejected err) \<and>
                    emitted (tick f p w) = emitted w
       | Inr i \<Rightarrow> outcome (tasks (tick f p w) ! p) = Some (resolved i) \<and>
                  emitted (tick f p w) = emitted w @ [i]) \<and>
      this_instance (tick f p w) = Plain JUndefined"
    if a: "p < length (tasks w) \<and> outcome (tasks w ! p) = None \<and>
            all_values (settled w) (waits (tasks w ! p)) = Some vs" for p vs
  proof -
    from a have p: "p < length (tasks w)" and o: "outcome (tasks w ! p) = None"
      and av: "all_values (settled w) (waits (tasks w ! p)) = Some vs" by simp_all
    have t: "invoked (tick f p w) = invoked w @ [(p, vs)] \<and>
      (case f (length (invoked w)) vs of
         Inl err \<Rightarrow> outcome (tasks (tick f p w) ! p) = Some (Rejected err) \<and>
                    emitted (tick f p w) = emitted w
       | Inr i \<Rightarrow> outcome (tasks (tick f p w) ! p) = Some (resolved i) \<and>
                  emitted (tick f p w) = emitted w @ [i])"
      by (rule tick_applies_factory [OF vi p o av])
    have "cache_inv (tick f p w)" using ci by (rule cache_inv_tick)
    moreover from ns have "\<not> truthy (this_singleton (tick f p w))" by simp
    ultimately have "this_instance (tick f p w) = Plain JUndefined" by (rule cache_invD3)
    moreover from waits_invD [OF wi p] d
    have "waits (tasks w ! p) = fan_out c (p * length deps) deps" by simp
    ultimately show ?thesis using t by (intro conjI) simp_all
  qed
  have made: "\<exists>k args i. k < length (invoked w) \<and> invoked w ! k = (p, args) \<and>
               f k args = Inr i \<and> x = resolved i \<and>
               waits (tasks w ! p) = fan_out c (p * length deps) deps \<and>
               all_values (settled w) (waits (tasks w ! p)) = Some args"
    if a: "p < length (tasks w) \<and> outcome (tasks w ! p) = Some x \<and> (\<forall>e. x \<noteq> Rejected e)"
    for p x
  proof -
    from a have p: "p < length (tasks w)" and o: "outcome (tasks w ! p) = Some x"
      and nr: "\<forall>e. x \<noteq> Rejected e" by simp_all
    have "outcome_inv f w" unfolding w by (rule reach_outcome)
    from made_by_factory [OF this p o nr]
    obtain k args i where k: "k < length (invoked w)" "invoked w ! k = (p, args)"
      "f k args = Inr i" "x = resolved i" and j: "joined (tasks w ! p) = JFulfilled args"
      by blast
    from values_invD1 [OF vi p j]
    have "all_values (settled w) (waits (tasks w ! p)) = Some args" .
    moreover from waits_invD [OF wi p] d
    have "waits (tasks w ! p) = fan_out c (p * length deps) deps" by simp
    ultimately show ?thesis using k by blast
  qed
  from i m ns rq d have "this_instance w = Plain JUndefined \<and>
         fst (create c w) = Future (length (tasks w)) \<and>
         tasks (snd (create c w)) = tasks w @
           [\<lparr> waits = fan_out c (length (tasks w) * length deps) deps,
              joined = promise_all (settled w) (fan_out c (length (tasks w) * length deps) deps),
              outcome = None \<rparr>] \<and>
         requested (snd (create c w)) = requested w @ deps \<and>
         this_instance (snd (create c w)) = Plain JUndefined"
    by simp
  moreover from later have "\<forall>p vs. p < length (tasks w) \<and> outcome (tasks w ! p) = None \<and>
            all_values (settled w) (waits (tasks w ! p)) = Some vs \<longrightarrow>
            waits (tasks w ! p) = fan_out c (p * length deps) deps \<and>
            invoked (tick f p w) = invoked w @ [(p, vs)] \<and>
            (case f (length (invoked w)) vs of
               Inl err \<Rightarrow> outcome (tasks (tick f p w) ! p) = Some (Rejected err) \<and>
                          emitted (tick f p w) = emitted w
             | Inr i \<Rightarrow> outcome (tasks (tick f p w) ! p) = Some (resolved i) \<and>
                        emitted (tick f p w) = emitted w @ [i]) \<and>
            this_instance (tick f p w) = Plain JUndefined"
    by blast
  moreover from made have "\<forall>p x. p < length (tasks w) \<and> outcome (tasks w ! p) = Some x \<and>
            (\<forall>e. x \<noteq> Rejected e) \<longrightarrow>
            (\<exists>k args i. k < length (invoked w) \<and> invoked w ! k = (p, args) \<and>
               f k args = Inr i \<and> x = resolved i \<and>
               waits (tasks w ! p) = fan_out c (p * length deps) deps \<and>
               all_values (settled w) (waits (tasks w ! p)) = Some args)"
    by blast
  ultimately show ?thesis by (intro conjI) simp_all
qed

theorem non_singleton_creates_afresh_witness:
  "\<not> truthy JUndefined \<and>
   this_instance (run (\<lambda>k d. Immediate (JNum (int k))) (\<lambda>k args. Inr (JArr args))
      (init [JStr ''a''] JUndefined) [Create, Create, Tick 0]) = Plain JUndefined \<and>
   (1::nat) < length (tasks (run (\<lambda>k d. Immediate (JNum (int k))) (\<lambda>k args. Inr (JArr args))
      (init [JStr ''a''] JUndefined) [Create, Create, Tick 0])) \<and>
   outcome (tasks (run (\<lambda>k d. Immediate (JNum (int k))) (\<lambda>k args. Inr (JArr args))
      (init [JStr ''a''] JUndefined) [Create, Create, Tick 0]) ! 1) = None \<and>
   all_values
     (settled (run (\<lambda>k d. Immediate (JNum (int k))) (\<lambda>k args. Inr (JArr args))
        (init [JStr ''a''] JUndefined) [Create, Create, Tick 0]))
     (waits (tasks (run (\<lambda>k d. Immediate (JNum (int k))) (\<lambda>k args. Inr (JArr args))
        (init [JStr ''a''] JUndefined) [Create, Create, Tick 0]) ! 1)) = Some [JNum 1] \<and>
   outcome (tasks (run (\<lambda>k d. Immediate (JNum (int k))) (\<lambda>k args. Inr (JArr args))
      (init [JStr ''a''] JUndefined) [Create, Create, Tick 0]) ! 0)
     = Some (Fulfilled (JArr [JNum 0])) \<and>
   invoked (run (\<lambda>k d. Immediate (JNum (int k))) (\<lambda>k args. Inr (JArr args))
      (init [JStr ''a''] JUndefined) [Create, Create, Tick 0, Tick 1])
     = [(0, [JNum 0]), (1, [JNum 1])] \<and>
   outcome (tasks (run (\<lambda>k d. Immediate (JNum (int k))) (\<lambda>k args. Inr (JArr args))
      (init [JStr ''a''] JUndefined) [Create, Create, Tick 0, Tick 1]) ! 1)
     = Some (Fulfilled (JArr [JNum 1])) \<and>
   emitted (run (\<lambda>k d. Immediate (JNum (int k))) (\<lambda>k args. Inr (JArr args))
      (init [JStr ''a''] JUndefined) [Create, Create, Tick 0, Tick 1])
     = [JArr [JNum 0], JArr [JNum 1]] \<and>
   requested (run (\<lambda>k d. Immediate (JNum (int k))) (\<lambda>k args. Inr (JArr args))
      (init [JStr ''a''] JUndefined) [Create, Create, Tick 0]) = [JStr ''a'', JStr ''a''] \<and>
   fst (create (\<lambda>k d. Immediate (JNum (int k)))
      (run (\<lambda>k d. Immediate (JNum (int k))) (\<lambda>k args. Inr (JArr args))
         (init [JStr ''a''] JUndefined) [Create, Create, Tick 0])) = Future 2"
  using non_singleton_creates_afresh
    [of JUndefined
        "run (\<lambda>k d. Immediate (JNum (int k))) (\<lambda>k args. Inr (JArr args))
           (init [JStr ''a''] JUndefined) [Create, Create, Tick 0]"
        "\<lambda>k d. Immediate (JNum (int k))" "\<lambda>k args. Inr (JArr args)" "[JStr ''a'']"
        "[Create, Create, Tick 0]"]
  by (simp add: evaluate)

subsection \<open>A singleton whose instance is falsy\<close>



end
